theory Spec2Isabelle
  imports Complex_Main "HOL-Library.Log_Nat"
begin

section \<open>Strings\<close>

text \<open>
  A Python \<open>str\<close> is a sequence of Unicode code points, and \<open>len\<close>, slicing and
  \<open>str.replace\<close> count code points. A string is therefore modelled as a list of code
  points (natural numbers); \<open>pys\<close> embeds an ASCII literal.
\<close>

type_synonym pystr = "nat list"

definition pys :: "string \<Rightarrow> pystr" where
  "pys s = map of_char s"

text \<open>\<open>s.replace(old, new)\<close> for one-character \<open>old\<close> and \<open>new\<close>.\<close>

definition replace_char :: "nat \<Rightarrow> nat \<Rightarrow> pystr \<Rightarrow> pystr" where
  "replace_char old new s = map (\<lambda>c. if c = old then new else c) s"

text \<open>
  \<open>str.strip()\<close> without argument removes leading and trailing characters for which
  \<open>str.isspace\<close> holds: U+0009--U+000D, U+001C--U+0020, U+0085, U+00A0, U+1680,
  U+2000--U+200A, U+2028, U+2029, U+202F, U+205F and U+3000.
\<close>

definition is_space :: "nat \<Rightarrow> bool" where
  "is_space c =
     ((9 \<le> c \<and> c \<le> 13) \<or> (28 \<le> c \<and> c \<le> 32) \<or> c = 133 \<or> c = 160 \<or> c = 5760 \<or>
      (8192 \<le> c \<and> c \<le> 8202) \<or> c = 8232 \<or> c = 8233 \<or> c = 8239 \<or> c = 8287 \<or>
      c = 12288)"

definition py_strip :: "pystr \<Rightarrow> pystr" where
  "py_strip s = rev (dropWhile is_space (rev (dropWhile is_space s)))"

text \<open>
  Decimal rendering of integers: \<open>digits\<close> is \<open>str\<close> of a natural number, \<open>str_int\<close>
  is \<open>str\<close> (and the format spec \<open>{i}\<close>) of an integer, and \<open>fmt_0d w\<close> is the format
  spec \<^verbatim>\<open>{i:0wd}\<close>: sign first, then zeros up to a total width of \<open>w\<close>, then the
  digits (a wider number is not cut).
\<close>

fun digits :: "nat \<Rightarrow> pystr" where
  "digits n = (if n < 10 then [48 + n] else digits (n div 10) @ [48 + n mod 10])"

declare digits.simps [simp del]

definition str_int :: "int \<Rightarrow> pystr" where
  "str_int i = (if i < 0 then 45 # digits (nat (- i)) else digits (nat i))"

definition fmt_0d :: "nat \<Rightarrow> int \<Rightarrow> pystr" where
  "fmt_0d w i =
     (let sign = (if i < 0 then [45] else []); ds = digits (nat \<bar>i\<bar>)
      in sign @ replicate (w - length sign - length ds) 48 @ ds)"

section \<open>Floating point\<close>

text \<open>
  A Python \<open>float\<close> is an IEEE 754 binary64 number. The finite ones are modelled by
  their exact rational value; infinities, NaN and the sign of zero are outside the model
  (no operation below observes the sign of zero, and the timestamps of a transcription
  are finite). \<open>expo x\<close> is \<open>\<lfloor>log\<^sub>2 x\<rfloor>\<close> for positive \<open>x\<close>, \<open>qexp x\<close> the exponent of the
  unit in the last place of a 53-bit significand (not below that of the subnormal
  numbers, \<open>2\<^sup>-\<^sup>1\<^sup>0\<^sup>7\<^sup>4\<close>), and \<open>fl\<close> rounds a rational to the nearest
  binary64 number, ties to the even significand. Overflow to infinity is not modelled:
  \<open>fl\<close> is the rounding of every result of magnitude below \<open>2\<^sup>1\<^sup>0\<^sup>2\<^sup>4\<close>.
\<close>

definition expo :: "rat \<Rightarrow> int" where
  "expo x = (if 1 \<le> x then bitlen \<lfloor>x\<rfloor> - 1 else - bitlen (\<lceil>1 / x\<rceil> - 1))"

definition round_even :: "rat \<Rightarrow> int" where
  "round_even q = (let f = \<lfloor>q\<rfloor>; r = q - of_int f in
     if r < 1 / 2 then f else if 1 / 2 < r then f + 1 else if even f then f else f + 1)"

definition qexp :: "rat \<Rightarrow> int" where
  "qexp x = max (expo \<bar>x\<bar> - 52) (- 1074)"

definition fl :: "rat \<Rightarrow> rat" where
  "fl x = (if x = 0 then 0 else
     sgn x * of_int (round_even (\<bar>x\<bar> / 2 powi qexp x)) * 2 powi qexp x)"

text \<open>The rationals that are binary64 numbers are the fixed points of the rounding.\<close>

definition is_double :: "rat \<Rightarrow> bool" where
  "is_double x = (fl x = x)"

text \<open>The arithmetic of \<open>float\<close>: the exact result, rounded.\<close>

definition fadd :: "rat \<Rightarrow> rat \<Rightarrow> rat" where
  "fadd a b = fl (a + b)"

definition fsub :: "rat \<Rightarrow> rat \<Rightarrow> rat" where
  "fsub a b = fl (a - b)"

definition fmul :: "rat \<Rightarrow> rat \<Rightarrow> rat" where
  "fmul a b = fl (a * b)"

definition fdiv :: "rat \<Rightarrow> rat \<Rightarrow> rat" where
  "fdiv a b = fl (a / b)"

text \<open>
  An \<open>int\<close> operand of a mixed operation is converted to \<open>float\<close> first
  (\<open>float_of_int\<close>); \<open>int(x)\<close> of a float truncates towards zero (\<open>py_int\<close>).
\<close>

definition float_of_int :: "int \<Rightarrow> rat" where
  "float_of_int i = fl (of_int i)"

definition py_int :: "rat \<Rightarrow> int" where
  "py_int x = (if 0 \<le> x then \<lfloor>x\<rfloor> else \<lceil>x\<rceil>)"

text \<open>
  C's \<open>fmod\<close> is exact: \<open>x - n * y\<close> for the quotient \<open>n\<close> truncated towards zero, so
  the result has the sign of \<open>x\<close>. CPython builds \<open>%\<close> and \<open>//\<close> of floats on it
  (\<open>float_rem\<close> and \<open>_float_div_mod\<close> of \<open>Objects/floatobject.c\<close>): the remainder
  takes the sign of the divisor, and the quotient is snapped to an integral value. Both
  are only called with the non-zero divisors 3600 and 60 here, so that
  \<open>ZeroDivisionError\<close> does not arise.
\<close>

definition c_fmod :: "rat \<Rightarrow> rat \<Rightarrow> rat" where
  "c_fmod x y = x - y * of_int (py_int (x / y))"

definition float_rem :: "rat \<Rightarrow> rat \<Rightarrow> rat" where
  "float_rem vx wx =
     (let md = c_fmod vx wx in
      if md \<noteq> 0 then (if (wx < 0) \<noteq> (md < 0) then fadd md wx else md)
      else 0)"

definition float_floor_div :: "rat \<Rightarrow> rat \<Rightarrow> rat" where
  "float_floor_div vx wx =
     (let md = c_fmod vx wx;
          div0 = fdiv (fsub vx md) wx;
          div1 = (if md \<noteq> 0 \<and> (wx < 0) \<noteq> (md < 0) then fsub div0 1 else div0)
      in if div1 \<noteq> 0
         then (let floordiv = of_int \<lfloor>div1\<rfloor>
               in if 1 / 2 < fsub div1 floordiv then fadd floordiv 1 else floordiv)
         else 0)"

text \<open>
  The format spec \<^verbatim>\<open>{x:.3f}\<close>: the exact value rounded to three decimals, ties to
  even, as the correctly rounded conversion of CPython does.
\<close>

definition fmt_3f :: "rat \<Rightarrow> pystr" where
  "fmt_3f x =
     (let r = round_even (\<bar>x\<bar> * 1000)
      in (if x < 0 then [45] else []) @ digits (nat (r div 1000)) @ [46] @ fmt_0d 3 (r mod 1000))"

section \<open>sanitize\_filename (sub\_video.py, lines 72--83)\<close>

text \<open>
  The characters of \<^verbatim>\<open>invalid_chars = '<>:"/\\|?*'\<close>, by code point:
  \<open><\<close> 60, \<open>>\<close> 62, \<open>:\<close> 58, the double quote 34, \<open>/\<close> 47, the backslash 92,
  \<open>|\<close> 124, \<open>?\<close> 63, \<open>*\<close> 42. The underscore is 95 and the space is 32.
\<close>

definition invalid_chars :: pystr where
  "invalid_chars = [60, 62, 58, 34, 47, 92, 124, 63, 42]"

text \<open>
  \<^verbatim>\<open>re.sub(r'[^\x00-\x7F]+', '_', filename)\<close>: every maximal run of code points above
  127 is replaced by one underscore.
\<close>

function sub_non_ascii :: "pystr \<Rightarrow> pystr" where
  "sub_non_ascii [] = []"
| "sub_non_ascii (c # cs) =
     (if c \<le> 127 then c # sub_non_ascii cs
      else 95 # sub_non_ascii (dropWhile (\<lambda>d. 127 < d) cs))"
  by pat_completeness auto
termination
  by (relation "measure length") (auto simp: le_imp_less_Suc length_dropWhile_le)

definition sanitize_filename :: "pystr \<Rightarrow> pystr" where
  "sanitize_filename filename =
     (let f1 = foldl (\<lambda>f ch. replace_char ch 95 f) filename invalid_chars;
          f2 = replace_char 32 95 f1;
          f3 = sub_non_ascii f2
      in if 100 < length f3 then take 100 f3 else f3)"

text \<open>The constrained character set of the specification: ASCII letters, digits, underscore.\<close>

definition word_char :: "nat \<Rightarrow> bool" where
  "word_char c =
     ((48 \<le> c \<and> c \<le> 57) \<or> (65 \<le> c \<and> c \<le> 90) \<or> (97 \<le> c \<and> c \<le> 122) \<or> c = 95)"

text \<open>What the function does guarantee of each character: ASCII, not a space, not one of
  \<open>invalid_chars\<close>.\<close>

definition clean_char :: "nat \<Rightarrow> bool" where
  "clean_char c = (c \<le> 127 \<and> c \<noteq> 32 \<and> c \<notin> set invalid_chars)"

section \<open>format\_timestamp (sub\_video.py, lines 101--116)\<close>

definition format_timestamp :: "rat \<Rightarrow> pystr \<Rightarrow> pystr" where
  "format_timestamp seconds format_type =
     (let hours = py_int (float_floor_div seconds (float_of_int 3600));
          minutes = py_int (float_floor_div (float_rem seconds (float_of_int 3600)) (float_of_int 60));
          secs = float_rem seconds (float_of_int 60)
      in if format_type = pys ''srt'' then
           (let milliseconds =
                  py_int (fmul (fsub secs (float_of_int (py_int secs))) (float_of_int 1000))
            in fmt_0d 2 hours @ pys '':'' @ fmt_0d 2 minutes @ pys '':'' @ fmt_0d 2 (py_int secs)
               @ pys '','' @ fmt_0d 3 milliseconds)
         else if format_type = pys ''ass'' then
           (let centiseconds =
                  py_int (fmul (fsub secs (float_of_int (py_int secs))) (float_of_int 100))
            in str_int hours @ pys '':'' @ fmt_0d 2 minutes @ pys '':'' @ fmt_0d 2 (py_int secs)
               @ pys ''.'' @ fmt_0d 2 centiseconds)
         else fmt_0d 2 hours @ pys '':'' @ fmt_0d 2 minutes @ pys '':'' @ fmt_3f secs)"

text \<open>Fixed-width decimal fields, as the specification writes them (\<open>HH\<close>, \<open>mmm\<close>).\<close>

definition two_digits :: "nat \<Rightarrow> pystr" where
  "two_digits n = [48 + n div 10, 48 + n mod 10]"

definition three_digits :: "nat \<Rightarrow> pystr" where
  "three_digits n = [48 + n div 100, 48 + n div 10 mod 10, 48 + n mod 10]"

definition is_digit :: "nat \<Rightarrow> bool" where
  "is_digit c = (48 \<le> c \<and> c \<le> 57)"

text \<open>
  The shapes of the two timestamp formats: \<open>HH:MM:SS,mmm\<close>, and the part \<open>:MM:SS.cc\<close>
  that follows the hours of \<open>H:MM:SS.cc\<close>, whose hours are a decimal numeral without
  leading zeros.
\<close>

definition srt_shape :: "pystr \<Rightarrow> bool" where
  "srt_shape t =
     (length t = 12 \<and> t ! 2 = 58 \<and> t ! 5 = 58 \<and> t ! 8 = 44 \<and>
      list_all is_digit [t ! 0, t ! 1, t ! 3, t ! 4, t ! 6, t ! 7, t ! 9, t ! 10, t ! 11])"

definition ass_tail_shape :: "pystr \<Rightarrow> bool" where
  "ass_tail_shape t =
     (length t = 9 \<and> t ! 0 = 58 \<and> t ! 3 = 58 \<and> t ! 6 = 46 \<and>
      list_all is_digit [t ! 1, t ! 2, t ! 4, t ! 5, t ! 7, t ! 8])"

definition decimal_numeral :: "pystr \<Rightarrow> bool" where
  "decimal_numeral ds = (ds \<noteq> [] \<and> list_all is_digit ds \<and> (ds = [48] \<or> hd ds \<noteq> 48))"

section \<open>Subtitle writers (sub\_video.py, lines 118--185)\<close>

text \<open>
  The segments of the transcription: start, end, text, and the per-word timing when it was
  requested (\<open>seg_words\<close> is \<open>None\<close> when the attribute is missing or \<open>None\<close>).
\<close>

record word =
  w_start :: rat
  w_end :: rat
  w_word :: pystr

record segment =
  seg_start :: rat
  seg_end :: rat
  seg_text :: pystr
  seg_words :: "word list option"

text \<open>
  \<open>create_srt\<close>: the file is opened for writing (empty), and the loop over
  \<open>enumerate(segments, start=1)\<close> appends one \<open>f.write\<close> per segment. The result is the
  text of the file.
\<close>

fun srt_loop :: "nat \<Rightarrow> segment list \<Rightarrow> pystr \<Rightarrow> pystr" where
  "srt_loop i [] f = f"
| "srt_loop i (segment # segments) f =
     (let start_time = format_timestamp (seg_start segment) (pys ''srt'');
          end_time = format_timestamp (seg_end segment) (pys ''srt'');
          stripped = py_strip (seg_text segment)
      in srt_loop (i + 1) segments
           (f @ digits i @ pys ''\<newline>'' @ start_time @ pys '' --> '' @ end_time @ pys ''\<newline>''
              @ stripped @ pys ''\<newline>\<newline>''))"

definition create_srt :: "segment list \<Rightarrow> pystr" where
  "create_srt segments = srt_loop 1 segments []"

text \<open>
  The block of the specification, line by line: the index, the two timestamps, the
  stripped text, an empty line. \<open>nl_line\<close> ends a line.
\<close>

definition nl_line :: "pystr \<Rightarrow> pystr" where
  "nl_line l = l @ [10]"

definition srt_block :: "nat \<Rightarrow> segment \<Rightarrow> pystr" where
  "srt_block i seg =
     nl_line (digits i)
     @ nl_line (format_timestamp (seg_start seg) (pys ''srt'') @ pys '' --> ''
           @ format_timestamp (seg_end seg) (pys ''srt''))
     @ nl_line (py_strip (seg_text seg))
     @ nl_line []"

definition srt_blocks :: "segment list \<Rightarrow> pystr" where
  "srt_blocks segs = concat (map (\<lambda>(i, seg). srt_block i seg) (List.enumerate 1 segs))"

text \<open>The three segments of the specification's SRT example.\<close>

definition srt_example :: "segment list" where
  "srt_example =
     [\<lparr>seg_start = 0, seg_end = 1, seg_text = pys ''a'', seg_words = None\<rparr>,
      \<lparr>seg_start = 1, seg_end = 5 / 2, seg_text = pys ''b'', seg_words = None\<rparr>,
      \<lparr>seg_start = 5 / 2, seg_end = 4, seg_text = pys ''c'', seg_words = None\<rparr>]"

text \<open>One segment whose text has whitespace at both ends, a line feed included.\<close>

definition padded_example :: "segment list" where
  "padded_example =
     [\<lparr>seg_start = 0, seg_end = 1, seg_text = pys ''  hello world \<newline>'', seg_words = None\<rparr>]"

text \<open>The registry of named colours, \<open>ASS_COLORS\<close>.\<close>

definition ASS_COLORS :: "pystr \<rightharpoonup> pystr" where
  "ASS_COLORS = map_of
     [(pys ''yellow'', pys ''&H00FFFF&''),
      (pys ''white'', pys ''&HFFFFFF&''),
      (pys ''blue'', pys ''&HFF0000&''),
      (pys ''green'', pys ''&H00FF00&''),
      (pys ''red'', pys ''&H0000FF&''),
      (pys ''cyan'', pys ''&HFFFF00&''),
      (pys ''magenta'', pys ''&HFF00FF&''),
      (pys ''black'', pys ''&H000000&'')]"

text \<open>
  The karaoke loop of \<open>create_ass\<close> (lines 166--180). \<open>k_open\<close> is the text
  \<^verbatim>\<open>{\k\<close> that opens a karaoke tag (code points 123, 92, 107); the loop carries
  \<open>words_text\<close> and \<open>last_end\<close>.
\<close>

definition k_open :: pystr where
  "k_open = [123, 92, 107]"

fun karaoke_loop :: "word list \<Rightarrow> pystr \<Rightarrow> rat \<Rightarrow> pystr" where
  "karaoke_loop [] words_text last_end = words_text"
| "karaoke_loop (word # words) words_text last_end =
     (let word_duration = fsub (w_end word) (w_start word);
          delay = fsub (w_start word) last_end;
          words_text1 =
            (if 0 < delay
             then words_text @ k_open @ str_int (py_int (fmul delay (float_of_int 100))) @ pys ''} ''
             else words_text);
          words_text2 =
            words_text1 @ k_open @ str_int (py_int (fmul word_duration (float_of_int 100)))
              @ pys ''}'' @ w_word word @ pys '' ''
      in karaoke_loop words words_text2 (w_end word))"

text \<open>\<^verbatim>\<open>hasattr(segment, 'words') and segment.words\<close>: a non-empty word list.\<close>

definition truthy_words :: "segment \<Rightarrow> bool" where
  "truthy_words segment = (case seg_words segment of None \<Rightarrow> False | Some ws \<Rightarrow> ws \<noteq> [])"

text \<open>The loop over the segments: one \<open>f.write\<close> of a dialogue line per segment.\<close>

fun ass_loop :: "bool \<Rightarrow> pystr \<Rightarrow> segment list \<Rightarrow> pystr \<Rightarrow> pystr" where
  "ass_loop karaoke style [] f = f"
| "ass_loop karaoke style (segment # segments) f =
     (let start_time = format_timestamp (seg_start segment) (pys ''ass'');
          end_time = format_timestamp (seg_end segment) (pys ''ass'');
          stripped = py_strip (seg_text segment)
      in ass_loop karaoke style segments
           (if karaoke \<and> truthy_words segment
            then (let words_text = karaoke_loop (the (seg_words segment)) [] (seg_start segment)
                  in f @ pys ''Dialogue: 0,'' @ start_time @ pys '','' @ end_time
                       @ pys '',Karaoke,,0,0,0,,'' @ py_strip words_text @ pys ''\<newline>'')
            else f @ pys ''Dialogue: 0,'' @ start_time @ pys '','' @ end_time @ pys '','' @ style
                   @ pys '',,0,0,0,,'' @ stripped @ pys ''\<newline>''))"

text \<open>The writes before the loop: script info, the two styles, the events header.\<close>

definition ass_header :: "pystr \<Rightarrow> pystr \<Rightarrow> pystr" where
  "ass_header title ass_color =
     pys ''[Script Info]\<newline>''
     @ pys ''Title: '' @ title @ pys ''\<newline>''
     @ pys ''ScriptType: v4.00+\<newline>''
     @ pys ''WrapStyle: 0\<newline>''
     @ pys ''ScaledBorderAndShadow: yes\<newline>''
     @ pys ''YCbCr Matrix: None\<newline>''
     @ pys ''PlayResX: 1920\<newline>''
     @ pys ''PlayResY: 1080\<newline>\<newline>''
     @ pys ''[V4+ Styles]\<newline>''
     @ pys ''Format: Name, Fontname, Fontsize, PrimaryColour, SecondaryColour, OutlineColour, BackColour, Bold, Italic, Underline, StrikeOut, ScaleX, ScaleY, Spacing, Angle, BorderStyle, Outline, Shadow, Alignment, MarginL, MarginR, MarginV, Encoding\<newline>''
     @ pys ''Style: Default,Arial,48,'' @ ass_color
       @ pys '',&HFFFFFF&,&H000000&,&H000000&,0,0,0,0,100,100,0,0,1,2,2,2,20,20,20,1\<newline>''
     @ pys ''Style: Karaoke,Arial,48,'' @ ass_color
       @ pys '',&HFFFFFF&,&H000000&,&H000000&,0,0,0,0,100,100,0,0,1,2,2,2,20,20,20,1\<newline>\<newline>''
     @ pys ''[Events]\<newline>''
     @ pys ''Format: Layer, Start, End, Style, Name, MarginL, MarginR, MarginV, Effect, Text\<newline>''"

text \<open>
  \<open>create_ass\<close>. The colour is looked up by \<open>color.lower()\<close> with white as the default;
  \<open>str.lower\<close>, the Unicode lower-casing of the runtime, is the parameter \<open>lower\<close>. The
  result is the text of the file.
\<close>

definition create_ass ::
  "(pystr \<Rightarrow> pystr) \<Rightarrow> segment list \<Rightarrow> pystr \<Rightarrow> bool \<Rightarrow> pystr \<Rightarrow> pystr \<Rightarrow> pystr" where
  "create_ass lower segments title karaoke style color =
     (let ass_color = (case ASS_COLORS (lower color) of Some c \<Rightarrow> c | None \<Rightarrow> the (ASS_COLORS (pys ''white'')))
      in ass_loop karaoke style segments (ass_header title ass_color))"

text \<open>
  The dialogue line as the specification describes it: per word, an optional tag for the
  gap to the previous word's end and a tag for the word's own duration, both in
  centiseconds, followed by the word and a space.
\<close>

definition gap_tag :: "rat \<Rightarrow> pystr" where
  "gap_tag gap =
     (if 0 < gap then k_open @ str_int (py_int (fmul gap (float_of_int 100))) @ pys ''} '' else [])"

definition word_fragment :: "rat \<Rightarrow> word \<Rightarrow> pystr" where
  "word_fragment prev_end w =
     gap_tag (fsub (w_start w) prev_end)
     @ k_open @ str_int (py_int (fmul (fsub (w_end w) (w_start w)) (float_of_int 100))) @ pys ''}''
     @ w_word w @ pys '' ''"

definition prev_ends :: "rat \<Rightarrow> word list \<Rightarrow> rat list" where
  "prev_ends start ws = start # map w_end (butlast ws)"

definition karaoke_text :: "rat \<Rightarrow> word list \<Rightarrow> pystr" where
  "karaoke_text start ws = py_strip (concat (map2 word_fragment (prev_ends start ws) ws))"

definition dialogue_text :: "bool \<Rightarrow> pystr \<Rightarrow> segment \<Rightarrow> pystr" where
  "dialogue_text karaoke style seg =
     pys ''Dialogue: 0,'' @ format_timestamp (seg_start seg) (pys ''ass'') @ pys '',''
     @ format_timestamp (seg_end seg) (pys ''ass'') @ pys '',''
     @ (if karaoke \<and> truthy_words seg
        then pys ''Karaoke,,0,0,0,,'' @ karaoke_text (seg_start seg) (the (seg_words seg))
        else style @ pys '',,0,0,0,,'' @ py_strip (seg_text seg))"

definition ass_color_of :: "(pystr \<Rightarrow> pystr) \<Rightarrow> pystr \<Rightarrow> pystr" where
  "ass_color_of lower color =
     (case ASS_COLORS (lower color) of Some c \<Rightarrow> c | None \<Rightarrow> pys ''&HFFFFFF&'')"

text \<open>The karaoke example of the specification; \<open>0.6\<close> is the binary64 number \<open>fl (6 / 10)\<close>.\<close>

definition karaoke_words :: "word list" where
  "karaoke_words =
     [\<lparr>w_start = 0, w_end = 1 / 2, w_word = pys ''hi''\<rparr>,
      \<lparr>w_start = fl (6 / 10), w_end = 1, w_word = pys ''there''\<rparr>]"

definition karaoke_example :: segment where
  "karaoke_example =
     \<lparr>seg_start = 0, seg_end = 1, seg_text = pys ''hi there'', seg_words = Some karaoke_words\<rparr>"

section \<open>Properties of the rounding\<close>

lemma expo_ge1:
  assumes "1 \<le> x"
  shows "2 powi (expo x) \<le> x" "x < 2 powi (expo x + 1)"
proof -
  define n where "n = \<lfloor>x\<rfloor>"
  have n: "1 \<le> n" using assms by (simp add: n_def le_floor_iff)
  then have b: "2 ^ nat (bitlen n - 1) \<le> n" "n < 2 ^ nat (bitlen n)"
    using bitlen_bounds [of n] by auto
  have b1: "1 \<le> bitlen n" using n by (auto simp: bitlen_alt_def)
  have e: "expo x = bitlen n - 1" using assms by (simp add: expo_def n_def)
  have "(2::rat) powi (bitlen n - 1) = of_int (2 ^ nat (bitlen n - 1))"
    using b1 by (simp add: power_int_def)
  also have "\<dots> \<le> of_int n" using b(1) by (simp only: of_int_le_iff)
  also have "\<dots> \<le> x" by (simp add: n_def)
  finally show "2 powi (expo x) \<le> x" by (simp add: e)
  have n1: "n + 1 \<le> 2 ^ nat (bitlen n)" using b(2) by simp
  have "x < of_int (n + 1)" using floor_correct [of x] by (simp add: n_def)
  also have "\<dots> \<le> of_int (2 ^ nat (bitlen n))" using n1 by (simp only: of_int_le_iff)
  also have "\<dots> = (2::rat) powi (bitlen n)" using b1 by (simp add: power_int_def)
  finally show "x < 2 powi (expo x + 1)" by (simp add: e)
qed

lemma expo_lt1:
  assumes "0 < x" "x < 1"
  shows "2 powi (expo x) \<le> x" "x < 2 powi (expo x + 1)"
proof -
  define c where "c = \<lceil>1 / x\<rceil>"
  have y: "1 < 1 / x" using assms by simp
  then have c2: "2 \<le> c" unfolding c_def by (simp add: le_ceiling_iff)
  then have b: "2 ^ nat (bitlen (c - 1) - 1) \<le> c - 1" "c - 1 < 2 ^ nat (bitlen (c - 1))"
    using bitlen_bounds [of "c - 1"] by auto
  have b1: "1 \<le> bitlen (c - 1)" using c2 by (auto simp: bitlen_alt_def)
  have e: "expo x = - bitlen (c - 1)" using assms by (simp add: expo_def c_def)
  have c1: "c \<le> 2 ^ nat (bitlen (c - 1))" using b(2) by simp
  have "1 / x \<le> of_int c" by (simp add: c_def)
  also have "\<dots> \<le> of_int (2 ^ nat (bitlen (c - 1)))" using c1 by (simp only: of_int_le_iff)
  finally have u: "1 / x \<le> 2 ^ nat (bitlen (c - 1))" by simp
  have "1 / 2 ^ nat (bitlen (c - 1)) \<le> x"
    using u assms(1) by (simp add: field_simps)
  moreover have "(2::rat) powi (- bitlen (c - 1)) = 1 / 2 ^ nat (bitlen (c - 1))"
    using b1 by (simp add: power_int_def field_simps)
  ultimately show "2 powi (expo x) \<le> x" by (simp add: e)
  have "of_int (2 ^ nat (bitlen (c - 1) - 1)) \<le> (of_int (c - 1) :: rat)"
    using b(1) by (simp only: of_int_le_iff)
  also have "\<dots> < 1 / x" unfolding c_def using ceiling_correct [of "1 / x"] by simp
  finally have l: "2 ^ nat (bitlen (c - 1) - 1) < 1 / x" by simp
  have "x < 1 / 2 ^ nat (bitlen (c - 1) - 1)"
    using l assms(1) by (simp add: field_simps)
  moreover have "(2::rat) powi (- bitlen (c - 1) + 1) = 1 / 2 ^ nat (bitlen (c - 1) - 1)"
  proof (cases "bitlen (c - 1) = 1")
    case True
    then show ?thesis by simp
  next
    case False
    with b1 have "- bitlen (c - 1) + 1 < 0" by simp
    then show ?thesis by (simp add: power_int_def field_simps nat_diff_distrib)
  qed
  ultimately show "x < 2 powi (expo x + 1)" by (simp add: e)
qed

lemma expo_bounds:
  assumes "0 < x"
  shows "2 powi (expo x) \<le> x" "x < 2 powi (expo x + 1)"
  using expo_ge1 [of x] expo_lt1 [of x] assms by (cases "1 \<le> x"; simp)+

lemma p2_pos [simp]: "0 < (2::rat) powi k"
  by (simp add: power_int_def)

lemma p2_less_iff [simp]: "(2::rat) powi a < 2 powi b \<longleftrightarrow> a < b"
proof
  assume l: "(2::rat) powi a < 2 powi b"
  show "a < b"
  proof (rule ccontr)
    assume "\<not> a < b"
    then have "(2::rat) powi b \<le> 2 powi a"
      by (intro power_int_increasing) auto
    with l show False by simp
  qed
next
  assume "a < b"
  then show "(2::rat) powi a < 2 powi b"
    by (intro power_int_strict_increasing) auto
qed

lemma p2_le_iff [simp]: "(2::rat) powi a \<le> 2 powi b \<longleftrightarrow> a \<le> b"
  using p2_less_iff [of b a] by (simp only: linorder_not_less [symmetric])

lemma p2_add: "(2::rat) powi (a + b) = 2 powi a * 2 powi b"
  by (rule power_int_add) simp

lemma p2_diff: "(2::rat) powi (a - b) = 2 powi a / 2 powi b"
  by (rule power_int_diff) simp

lemma p2_nat: "0 \<le> k \<Longrightarrow> (2::rat) powi k = of_int (2 ^ nat k)"
  by (simp add: power_int_def)

lemma expo_unique:
  assumes "0 < x" "2 powi e \<le> x" "x < 2 powi (e + 1)"
  shows "expo x = e"
proof -
  have "(2::rat) powi e < 2 powi (expo x + 1)"
    using assms(2) expo_bounds(2) [OF assms(1)] by (rule le_less_trans)
  then have a: "e < expo x + 1" by simp
  have "(2::rat) powi (expo x) < 2 powi (e + 1)"
    using expo_bounds(1) [OF assms(1)] assms(3) by (rule le_less_trans)
  then have "expo x < e + 1" by simp
  with a show ?thesis by simp
qed

lemma expo_mono:
  assumes "0 < x" "x \<le> y"
  shows "expo x \<le> expo y"
proof -
  have y: "0 < y" using assms by simp
  have "(2::rat) powi (expo x) \<le> x" by (rule expo_bounds(1) [OF assms(1)])
  also have "\<dots> \<le> y" by fact
  also have "\<dots> < 2 powi (expo y + 1)" by (rule expo_bounds(2) [OF y])
  finally have "expo x < expo y + 1" by simp
  then show ?thesis by simp
qed

lemma round_even_of_int [simp]: "round_even (of_int i) = i"
  by (simp add: round_even_def)

lemma round_even_cases: "round_even q = \<lfloor>q\<rfloor> \<or> round_even q = \<lfloor>q\<rfloor> + 1"
  by (simp add: round_even_def Let_def)

lemma round_even_ge_floor: "\<lfloor>q\<rfloor> \<le> round_even q"
  using round_even_cases [of q] by auto

lemma round_even_le_floor1: "round_even q \<le> \<lfloor>q\<rfloor> + 1"
  using round_even_cases [of q] by auto

lemma round_even_mono:
  assumes "q \<le> r"
  shows "round_even q \<le> round_even r"
proof (cases "\<lfloor>q\<rfloor> = \<lfloor>r\<rfloor>")
  case True
  then show ?thesis
    using assms by (auto simp: round_even_def Let_def)
next
  case False
  with assms have "\<lfloor>q\<rfloor> < \<lfloor>r\<rfloor>"
    using floor_mono [OF assms] by simp
  then have "round_even q \<le> \<lfloor>r\<rfloor>"
    using round_even_le_floor1 [of q] by simp
  then show ?thesis
    using round_even_ge_floor [of r] by simp
qed

lemma round_even_nonneg: "0 \<le> q \<Longrightarrow> 0 \<le> round_even q"
  using round_even_mono [of 0 q] round_even_of_int [of 0] by simp

lemma round_even_le_int: "q \<le> of_int i \<Longrightarrow> round_even q \<le> i"
  using round_even_mono [of q "of_int i"] by simp

lemma round_even_ge_int: "of_int i \<le> q \<Longrightarrow> i \<le> round_even q"
  using round_even_mono [of "of_int i" q] by simp

lemma fl_zero [simp]: "fl 0 = 0"
  by (simp add: fl_def)

lemma qexp_minus [simp]: "qexp (- x) = qexp x"
  by (simp add: qexp_def)

lemma fl_minus: "fl (- x) = - fl x"
  by (simp add: fl_def)

lemma fl_pos: "0 < x \<Longrightarrow> fl x = of_int (round_even (x / 2 powi qexp x)) * 2 powi qexp x"
  by (simp add: fl_def)

lemma fl_nonneg: "0 \<le> x \<Longrightarrow> 0 \<le> fl x"
proof (cases "x = 0")
  case True
  then show ?thesis by simp
next
  case False
  assume "0 \<le> x"
  with False have x: "0 < x" by simp
  have "0 \<le> round_even (x / 2 powi qexp x)"
    using x by (intro round_even_nonneg) simp
  then show ?thesis
    by (simp add: fl_pos [OF x])
qed

lemma fl_repr_pos:
  assumes n: "0 < n" "n < 2 ^ 53" and k: "- 1074 \<le> k"
  shows "fl (of_int n * 2 powi k) = of_int n * 2 powi k"
proof -
  define x :: rat where "x = of_int n * 2 powi k"
  have x: "0 < x" using n(1) by (simp add: x_def)
  have "of_int n < (of_int (2 ^ 53) :: rat)" using n(2) by (simp only: of_int_less_iff)
  then have "x < 2 powi 53 * 2 powi k"
    by (simp add: x_def)
  then have "x < 2 powi (53 + k)" by (simp add: p2_add)
  with expo_bounds(1) [OF x] have "(2::rat) powi (expo x) < 2 powi (53 + k)"
    by (rule le_less_trans)
  then have "expo x - 52 \<le> k" by simp
  with k have q: "qexp x \<le> k" using x by (simp add: qexp_def)
  have "x / 2 powi qexp x = of_int n * 2 powi (k - qexp x)"
    by (simp add: x_def p2_diff)
  also have "\<dots> = of_int (n * 2 ^ nat (k - qexp x))"
    using q by (simp add: p2_nat)
  finally have "round_even (x / 2 powi qexp x) = n * 2 ^ nat (k - qexp x)"
    by (simp only: round_even_of_int)
  then have "fl x = of_int (n * 2 ^ nat (k - qexp x)) * 2 powi qexp x"
    by (simp add: fl_pos [OF x])
  also have "\<dots> = of_int n * (2 powi (k - qexp x) * 2 powi qexp x)"
    using q by (simp add: p2_nat)
  also have "\<dots> = x"
    by (simp add: x_def p2_add [symmetric])
  finally show ?thesis by (simp add: x_def)
qed

lemma fl_repr:
  assumes "\<bar>n\<bar> < 2 ^ 53" "- 1074 \<le> k"
  shows "fl (of_int n * 2 powi k) = of_int n * 2 powi k"
proof -
  consider "n = 0" | "0 < n" | "n < 0" by linarith
  then show ?thesis
  proof cases
    case 1
    then show ?thesis by simp
  next
    case 2
    then show ?thesis using assms by (intro fl_repr_pos) auto
  next
    case 3
    then have "fl (of_int (- n) * 2 powi k) = of_int (- n) * 2 powi k"
      using assms by (intro fl_repr_pos) auto
    then show ?thesis
      using fl_minus [of "of_int n * 2 powi k"] by simp
  qed
qed

lemma fl_of_int:
  assumes "\<bar>n\<bar> \<le> 2 ^ 53"
  shows "fl (of_int n) = of_int n"
proof (cases "\<bar>n\<bar> < 2 ^ 53")
  case True
  then show ?thesis using fl_repr [of n 0] by simp
next
  case False
  with assms have "n = 2 ^ 53 \<or> n = - (2 ^ 53)" by auto
  then have "of_int n = (of_int (n div 2) :: rat) * 2 powi 1" "\<bar>n div 2\<bar> < 2 ^ 53"
    by auto
  then show ?thesis using fl_repr [of "n div 2" 1] by simp
qed

lemma qexp_lower: "- 1074 \<le> qexp x" and qexp_expo: "expo \<bar>x\<bar> - 52 \<le> qexp x"
  by (simp_all add: qexp_def)

lemma fl_ge_p2:
  assumes x: "0 < x" and q: "qexp x = expo x - 52"
  shows "2 powi (expo x) \<le> fl x"
proof -
  have "(2::rat) powi 52 = 2 powi (expo x) / 2 powi qexp x"
    by (simp add: q p2_diff [symmetric])
  also have "\<dots> \<le> x / 2 powi qexp x"
    using expo_bounds(1) [OF x] by (simp add: divide_right_mono)
  finally have "of_int (2 ^ 52) \<le> x / 2 powi qexp x" by simp
  then have "2 ^ 52 \<le> round_even (x / 2 powi qexp x)"
    by (rule round_even_ge_int)
  then have "(of_int (2 ^ 52) :: rat) \<le> of_int (round_even (x / 2 powi qexp x))"
    by (simp only: of_int_le_iff)
  then have "of_int (2 ^ 52) * 2 powi qexp x \<le> fl x"
    by (simp add: fl_pos [OF x])
  moreover have "of_int (2 ^ 52) * 2 powi qexp x = (2::rat) powi (expo x)"
    using p2_add [of 52 "qexp x"] by (simp add: q)
  ultimately show ?thesis by simp
qed

lemma fl_le_p2:
  assumes x: "0 < x"
  shows "fl x \<le> 2 powi (qexp x + 53)"
proof -
  have "expo x + 1 \<le> qexp x + 53"
    using qexp_expo [of x] x by simp
  then have "(2::rat) powi (expo x + 1) \<le> 2 powi (qexp x + 53)"
    by (simp only: p2_le_iff)
  with expo_bounds(2) [OF x] have "x < 2 powi (qexp x + 53)"
    by (rule less_le_trans)
  then have "x \<le> 2 powi (qexp x + 53)"
    by (rule less_imp_le)
  then have "x / 2 powi qexp x \<le> 2 powi (qexp x + 53) / 2 powi qexp x"
    by (simp add: divide_right_mono)
  also have "\<dots> = 2 powi 53" by (simp add: p2_diff [symmetric])
  finally have "x / 2 powi qexp x \<le> of_int (2 ^ 53)" by simp
  then have "round_even (x / 2 powi qexp x) \<le> 2 ^ 53"
    by (rule round_even_le_int)
  then have "(of_int (round_even (x / 2 powi qexp x)) :: rat) \<le> of_int (2 ^ 53)"
    by (simp only: of_int_le_iff)
  then have "fl x \<le> of_int (2 ^ 53) * 2 powi qexp x"
    by (simp add: fl_pos [OF x])
  moreover have "of_int (2 ^ 53) * 2 powi qexp x = (2::rat) powi (qexp x + 53)"
    using p2_add [of 53 "qexp x"] by (simp add: add.commute)
  ultimately show ?thesis by simp
qed

lemma fl_mono_pos:
  assumes x: "0 < x" and xy: "x \<le> y"
  shows "fl x \<le> fl y"
proof -
  have y: "0 < y" using x xy by simp
  have "expo x \<le> expo y" by (rule expo_mono [OF x xy])
  then have qq: "qexp x \<le> qexp y" using x y by (simp add: qexp_def)
  show ?thesis
  proof (cases "qexp x = qexp y")
    case True
    have "x / 2 powi qexp y \<le> y / 2 powi qexp y"
      using xy by (simp add: divide_right_mono)
    then have "round_even (x / 2 powi qexp y) \<le> round_even (y / 2 powi qexp y)"
      by (rule round_even_mono)
    then have "(of_int (round_even (x / 2 powi qexp y)) :: rat)
        \<le> of_int (round_even (y / 2 powi qexp y))"
      by (simp only: of_int_le_iff)
    then show ?thesis
      by (simp add: fl_pos [OF x] fl_pos [OF y] True)
  next
    case False
    with qq have lt: "qexp x < qexp y" by simp
    then have "- 1074 < qexp y" using qexp_lower [of x] by simp
    then have qy: "qexp y = expo y - 52" using y by (simp add: qexp_def split: if_splits)
    have "fl x \<le> 2 powi (qexp x + 53)" by (rule fl_le_p2 [OF x])
    also have "\<dots> \<le> 2 powi (expo y)" using lt qy by simp
    also have "\<dots> \<le> fl y" by (rule fl_ge_p2 [OF y qy])
    finally show ?thesis .
  qed
qed

lemma fl_mono:
  assumes "x \<le> y"
  shows "fl x \<le> fl y"
proof -
  consider "0 < x" | "x \<le> 0" "0 \<le> y" | "y < 0" by linarith
  then show ?thesis
  proof cases
    case 1
    then show ?thesis using assms by (rule fl_mono_pos)
  next
    case 2
    have "0 \<le> fl (- x)" using 2(1) by (intro fl_nonneg) simp
    then have "fl x \<le> 0" by (simp add: fl_minus)
    also have "0 \<le> fl y" using 2(2) by (rule fl_nonneg)
    finally show ?thesis .
  next
    case 3
    then have "fl (- y) \<le> fl (- x)"
      using assms by (intro fl_mono_pos) auto
    then show ?thesis by (simp add: fl_minus)
  qed
qed

lemma double_repr:
  assumes d: "is_double x" and x: "0 < x"
  obtains n k where "x = of_int n * 2 powi k" "0 < n" "n < 2 ^ 53" "- 1074 \<le> k"
proof -
  define q where "q = qexp x"
  define n where "n = round_even (x / 2 powi q)"
  have eq: "x = of_int n * 2 powi q"
    using d fl_pos [OF x] by (simp add: is_double_def n_def q_def)
  have "0 < of_int n * (2::rat) powi q" using eq x by simp
  then have "0 < (of_int n :: rat)"
    using zero_less_mult_pos2 [of "of_int n" "(2::rat) powi q"] by simp
  then have n0: "0 < n" by simp
  have "x \<le> fl x" using d by (simp add: is_double_def)
  have "expo x + 1 \<le> q + 53" using qexp_expo [of x] x by (simp add: q_def)
  then have "(2::rat) powi (expo x + 1) \<le> 2 powi (q + 53)" by (simp only: p2_le_iff)
  with expo_bounds(2) [OF x] have "x < 2 powi (q + 53)" by (rule less_le_trans)
  then have "of_int n * 2 powi q < (2::rat) powi 53 * 2 powi q"
    using eq by (simp add: p2_add add.commute)
  then have "(of_int n :: rat) < 2 powi 53" by simp
  then have "(of_int n :: rat) < of_int (2 ^ 53)" by simp
  then have n1: "n < 2 ^ 53" by (simp only: of_int_less_iff)
  show thesis
    using that [OF eq n0 n1] qexp_lower [of x] by (simp add: q_def)
qed

lemma double_frac:
  assumes d: "is_double x" and x: "0 \<le> x"
  shows "is_double (x - of_int \<lfloor>x\<rfloor>)"
proof (cases "x = 0")
  case True
  then show ?thesis by (simp add: is_double_def)
next
  case False
  with x have "0 < x" by simp
  from double_repr [OF d this] obtain n k where
    r: "x = of_int n * 2 powi k" "0 < n" "n < 2 ^ 53" "- 1074 \<le> k" by blast
  show ?thesis
  proof (cases "0 \<le> k")
    case True
    then have "x = of_int (n * 2 ^ nat k)" by (simp add: r(1) p2_nat)
    then have "x - of_int \<lfloor>x\<rfloor> = 0" by simp
    then show ?thesis by (simp add: is_double_def)
  next
    case False
    define j where "j = nat (- k)"
    have k: "k = - int j" using False by (simp add: j_def)
    have xj: "x = of_int n / of_int (2 ^ j)"
      by (simp add: r(1) k power_int_minus field_simps)
    define fx where "fx = \<lfloor>x\<rfloor>"
    have fl: "fx = n div 2 ^ j"
      unfolding fx_def xj by (rule floor_divide_of_int_eq)
    have "(of_int n :: rat) = of_int (n div 2 ^ j) * of_int (2 ^ j) + of_int (n mod 2 ^ j)"
      by (simp only: of_int_mult [symmetric] of_int_add [symmetric] div_mult_mod_eq)
    then have "x - of_int fx = of_int (n mod 2 ^ j) / of_int (2 ^ j)"
      unfolding fl xj by (simp add: field_simps)
    also have "\<dots> = of_int (n mod 2 ^ j) * 2 powi k"
      by (simp add: k power_int_minus field_simps)
    finally have e: "x - of_int \<lfloor>x\<rfloor> = of_int (n mod 2 ^ j) * 2 powi k"
      by (simp only: fx_def)
    have "0 \<le> n mod 2 ^ j" by simp
    moreover have "n mod 2 ^ j \<le> n" using r(2) by (intro zmod_le_nonneg_dividend) simp
    ultimately have "\<bar>n mod 2 ^ j\<bar> < 2 ^ 53" using r(3) by simp
    then show ?thesis
      unfolding is_double_def e using r(4) by (rule fl_repr)
  qed
qed

lemma double_below_one:
  assumes d: "is_double x" and x: "0 \<le> x" "x < 1"
  shows "x \<le> 1 - 2 powi (- 53)"
proof (cases "x = 0")
  case True
  then show ?thesis by (simp add: power_int_def power_le_one)
next
  case False
  with x have "0 < x" by simp
  from double_repr [OF d this] obtain n k where
    r: "x = of_int n * 2 powi k" "0 < n" "n < 2 ^ 53" "- 1074 \<le> k" by blast
  show ?thesis
  proof (cases "- 53 \<le> k")
    case True
    have "x * 2 powi 53 = of_int n * 2 powi (k + 53)"
      by (simp add: r(1) p2_add)
    also have "\<dots> = of_int (n * 2 ^ nat (k + 53))"
      using True by (simp add: p2_nat)
    finally have i: "x * 2 powi 53 = of_int (n * 2 ^ nat (k + 53))" .
    have "x * 2 powi 53 < 1 * 2 powi 53"
      using x(2) by (intro mult_strict_right_mono) simp_all
    then have "(of_int (n * 2 ^ nat (k + 53)) :: rat) < of_int (2 ^ 53)"
      unfolding i by simp
    then have "n * 2 ^ nat (k + 53) < 2 ^ 53" by (simp only: of_int_less_iff)
    then have "n * 2 ^ nat (k + 53) \<le> 2 ^ 53 - 1" by simp
    then have "(of_int (n * 2 ^ nat (k + 53)) :: rat) \<le> of_int (2 ^ 53 - 1)"
      by (simp only: of_int_le_iff)
    then have "x * 2 powi 53 \<le> 2 powi 53 - 1" unfolding i by simp
    then have "x \<le> (2 powi 53 - 1) / 2 powi 53"
      by (simp add: pos_le_divide_eq)
    also have "\<dots> = 1 - 2 powi (- 53)"
      by (simp add: power_int_minus field_simps)
    finally show ?thesis .
  next
    case False
    then have "k + 53 \<le> - 1" by simp
    have "of_int n < (of_int (2 ^ 53) :: rat)" using r(3) by (simp only: of_int_less_iff)
    then have "x < 2 powi 53 * 2 powi k" by (simp add: r(1))
    also have "\<dots> = 2 powi (k + 53)" by (simp add: p2_add add.commute)
    also have "\<dots> \<le> 2 powi (- 1)" using \<open>k + 53 \<le> - 1\<close> by (simp only: p2_le_iff)
    finally have a: "x < 2 powi (- 1)" .
    have b: "(2::rat) powi (- 53) \<le> 2 powi (- 1)" by (simp only: p2_le_iff)
    have c: "(2::rat) powi (- 1) = 1 / 2" by (simp add: power_int_def)
    show ?thesis using a b unfolding c by linarith
  qed
qed

lemma fl_idem: "fl (fl x) = fl x"
proof -
  have pos: "fl (fl y) = fl y" if y: "0 < y" for y
  proof -
    define q where "q = qexp y"
    define n where "n = round_even (y / 2 powi q)"
    have e: "fl y = of_int n * 2 powi q"
      by (simp add: fl_pos [OF y] n_def q_def)
    have n0: "0 \<le> n" unfolding n_def using y by (intro round_even_nonneg) simp
    have "fl y \<le> 2 powi (q + 53)" unfolding q_def by (rule fl_le_p2 [OF y])
    then have "of_int n * 2 powi q \<le> (2::rat) powi 53 * 2 powi q"
      unfolding e by (simp add: p2_add add.commute)
    then have "(of_int n :: rat) \<le> of_int (2 ^ 53)" by simp
    then have n1: "n \<le> 2 ^ 53" by (simp only: of_int_le_iff)
    have q: "- 1074 \<le> q" unfolding q_def by (rule qexp_lower)
    show ?thesis
    proof (cases "n < 2 ^ 53")
      case True
      then show ?thesis unfolding e using n0 q by (intro fl_repr) auto
    next
      case False
      with n1 have "n = 2 ^ 53" by simp
      then have "of_int n * 2 powi q = (of_int (2 ^ 52) :: rat) * 2 powi (q + 1)"
        by (simp add: p2_add)
      moreover have "fl (of_int (2 ^ 52) * 2 powi (q + 1)) = of_int (2 ^ 52) * 2 powi (q + 1)"
        using q by (intro fl_repr) auto
      ultimately show ?thesis unfolding e by simp
    qed
  qed
  consider "x = 0" | "0 < x" | "x < 0" by linarith
  then show ?thesis
  proof cases
    case 1
    then show ?thesis by simp
  next
    case 2
    then show ?thesis by (rule pos)
  next
    case 3
    then have "fl (fl (- x)) = fl (- x)" by (intro pos) simp
    then show ?thesis by (simp add: fl_minus)
  qed
qed

lemma is_double_fl [simp]: "is_double (fl x)"
  by (simp add: is_double_def fl_idem)

lemma float_of_int_small: "\<bar>n\<bar> \<le> 2 ^ 53 \<Longrightarrow> float_of_int n = of_int n"
  by (simp add: float_of_int_def fl_of_int)

lemma float_of_int_consts [simp]:
  "float_of_int 3600 = 3600" "float_of_int 60 = 60" "float_of_int 1000 = 1000"
  "float_of_int 100 = 100" "float_of_int 1 = 1"
  using float_of_int_small [of 3600] float_of_int_small [of 60] float_of_int_small [of 1000]
    float_of_int_small [of 100] float_of_int_small [of 1]
  by simp_all

lemma c_fmod_nonneg:
  assumes "0 \<le> x" "0 < y"
  shows "c_fmod x y = x - y * of_int \<lfloor>x / y\<rfloor>" "0 \<le> c_fmod x y" "c_fmod x y < y"
proof -
  have q: "0 \<le> x / y" using assms by simp
  then show e: "c_fmod x y = x - y * of_int \<lfloor>x / y\<rfloor>"
    by (simp add: c_fmod_def py_int_def)
  define j where "j = \<lfloor>x / y\<rfloor>"
  have "of_int j \<le> x / y" "x / y < of_int j + 1"
    unfolding j_def by linarith+
  then have "of_int j * y \<le> x" "x < (of_int j + 1) * y"
    using assms(2) by (simp_all only: pos_le_divide_eq pos_divide_less_eq)
  then show "0 \<le> c_fmod x y" "c_fmod x y < y"
    by (simp_all add: e j_def [symmetric] algebra_simps)
qed

lemma float_rem_nonneg:
  assumes "0 \<le> x" "0 < w"
  shows "float_rem x w = x - w * of_int \<lfloor>x / w\<rfloor>"
  using c_fmod_nonneg [OF assms] assms(2)
  by (auto simp: float_rem_def Let_def)

lemma float_floor_div_exact:
  assumes x: "0 \<le> x" "x < 2 ^ 53" and n: "0 < n"
  shows "float_floor_div x (of_int n) = of_int \<lfloor>x / of_int n\<rfloor>"
proof -
  define w :: rat where "w = of_int n"
  define j where "j = \<lfloor>x / w\<rfloor>"
  have w: "0 < w" "1 \<le> w" using n by (simp_all add: w_def)
  have md: "c_fmod x w = x - w * of_int j" "0 \<le> c_fmod x w"
    using c_fmod_nonneg [OF x(1) w(1)] by (simp_all add: j_def)
  have j0: "0 \<le> j" using x(1) w(1) by (simp add: j_def)
  have jw: "w * of_int j \<le> x"
    using md(2) by (simp add: md(1))
  have "of_int j * 1 \<le> of_int j * w" using j0 w(2) by (intro mult_left_mono) simp_all
  then have jx: "of_int j \<le> x" using jw by (simp add: mult.commute)
  have "(of_int (n * j) :: rat) < of_int (2 ^ 53)"
    using jw x(2) by (simp add: w_def)
  then have "n * j < 2 ^ 53" by (simp only: of_int_less_iff)
  then have a: "fl (of_int (n * j)) = of_int (n * j)"
    using n j0 by (intro fl_of_int) simp
  have "(of_int j :: rat) < of_int (2 ^ 53)" using jx x(2) by simp
  then have "j < 2 ^ 53" by (simp only: of_int_less_iff)
  then have b: "fl (of_int j) = of_int j"
    using j0 by (intro fl_of_int) simp
  have "x - c_fmod x w = of_int (n * j)"
    unfolding md(1) by (simp add: w_def)
  then have s: "fsub x (c_fmod x w) = of_int (n * j)"
    by (simp only: fsub_def a)
  have wn: "of_int (n * j) / w = of_int j"
    using n by (simp add: w_def)
  have d: "fdiv (fsub x (c_fmod x w)) w = of_int j"
    unfolding fdiv_def s wn by (rule b)
  have z: "fsub (of_int j) (of_int j) = 0"
    by (simp add: fsub_def)
  have "float_floor_div x w = of_int j"
    using md(2) w(1) by (simp add: float_floor_div_def Let_def d z)
  then show ?thesis by (simp add: w_def j_def)
qed

section \<open>Properties of sanitize\_filename\<close>

lemma sub_non_ascii_all: "list_all (\<lambda>c. c \<le> 127) (sub_non_ascii s)"
  by (induction s rule: sub_non_ascii.induct) auto

lemma sub_non_ascii_pres:
  "list_all P s \<Longrightarrow> P 95 \<Longrightarrow> list_all P (sub_non_ascii s)"
proof (induction s rule: sub_non_ascii.induct)
  case 1
  then show ?case by simp
next
  case (2 c cs)
  have "list_all P (dropWhile (\<lambda>d. 127 < d) cs)"
    using 2(3) by (auto simp: list_all_iff dest: set_dropWhileD)
  with 2 show ?case by auto
qed

lemma sub_non_ascii_id: "list_all (\<lambda>c. c \<le> 127) s \<Longrightarrow> sub_non_ascii s = s"
  by (induction s rule: sub_non_ascii.induct) auto

lemma replace_char_id: "old \<notin> set s \<Longrightarrow> replace_char old new s = s"
  by (induction s) (auto simp: replace_char_def)

lemma foldl_replace:
  "new \<notin> set cs \<Longrightarrow>
   foldl (\<lambda>f ch. replace_char ch new f) s cs = map (\<lambda>c. if c \<in> set cs then new else c) s"
proof (induction cs arbitrary: s)
  case Nil
  then show ?case by simp
next
  case (Cons a cs)
  then show ?case by (auto simp: replace_char_def)
qed

lemma invalid_no_underscore: "95 \<notin> set invalid_chars"
  by (simp add: invalid_chars_def)

lemma sanitize_clean: "list_all clean_char (sanitize_filename s)"
proof -
  define f1 where "f1 = foldl (\<lambda>f ch. replace_char ch 95 f) s invalid_chars"
  define f2 where "f2 = replace_char 32 95 f1"
  define f3 where "f3 = sub_non_ascii f2"
  have a: "list_all (\<lambda>c. c \<notin> set invalid_chars) f1"
  proof -
    define g where "g = (\<lambda>c::nat. if c \<in> set invalid_chars then 95 else c)"
    have "f1 = map g s"
      by (simp add: f1_def g_def foldl_replace [OF invalid_no_underscore])
    moreover have "g c \<notin> set invalid_chars" for c
      using invalid_no_underscore by (simp add: g_def)
    ultimately show ?thesis
      by (auto simp: list_all_iff)
  qed
  have b: "list_all (\<lambda>c. c \<noteq> 32 \<and> c \<notin> set invalid_chars) f2"
    using a invalid_no_underscore by (auto simp: f2_def replace_char_def list_all_iff)
  have c: "list_all (\<lambda>c. c \<noteq> 32 \<and> c \<notin> set invalid_chars) f3"
    unfolding f3_def by (rule sub_non_ascii_pres [OF b]) (simp add: invalid_chars_def)
  have d: "list_all (\<lambda>c. c \<le> 127) f3"
    unfolding f3_def by (rule sub_non_ascii_all)
  have e: "list_all clean_char f3"
    using c d by (auto simp: list_all_iff clean_char_def)
  have "list_all clean_char (take 100 f3)"
    using e by (auto simp: list_all_iff dest: in_set_takeD)
  with e show ?thesis
    by (simp add: sanitize_filename_def Let_def f1_def f2_def f3_def)
qed

lemma sanitize_fix:
  assumes "list_all clean_char s" "length s \<le> 100"
  shows "sanitize_filename s = s"
proof -
  have "foldl (\<lambda>f ch. replace_char ch 95 f) s invalid_chars =
        map (\<lambda>c. if c \<in> set invalid_chars then 95 else c) s"
    by (rule foldl_replace [OF invalid_no_underscore])
  also have "\<dots> = s"
    using assms(1) by (intro map_idI) (simp add: list_all_iff clean_char_def)
  finally have "foldl (\<lambda>f ch. replace_char ch 95 f) s invalid_chars = s" .
  moreover have "replace_char 32 95 s = s"
    using assms(1) by (intro replace_char_id) (auto simp: list_all_iff clean_char_def)
  moreover have "sub_non_ascii s = s"
    using assms(1) by (intro sub_non_ascii_id) (auto simp: list_all_iff clean_char_def)
  ultimately show ?thesis
    using assms(2) by (simp add: sanitize_filename_def Let_def)
qed

lemma sanitize_length: "length (sanitize_filename s) \<le> 100"
  by (simp add: sanitize_filename_def Let_def)

text \<open>
  Claim C8, as stated: every character of the result is an ASCII letter, a digit or an
  underscore, and the result has at most 100 characters. The function leaves every ASCII
  character other than the nine invalid ones and the space untouched, so the hyphen of
  \<^verbatim>\<open>"a-b"\<close> (code point 45) survives: the claim fails there.
\<close>

theorem sanitize_filename_word_chars_counterexample:
  "\<not> (length (sanitize_filename [97, 45, 98]) \<le> 100 \<and>
      list_all word_char (sanitize_filename [97, 45, 98]))"
  by (simp add: sanitize_filename_def invalid_chars_def replace_char_def word_char_def)

text \<open>
  Claim C8, amended: for every input string, \<open>sanitize_filename\<close> returns a string of
  at most 100 characters, each of which is an ASCII character that is neither a space nor
  one of the nine invalid filename characters.
\<close>

theorem sanitize_filename_clean:
  "length (sanitize_filename s) \<le> 100 \<and> list_all clean_char (sanitize_filename s)"
  using sanitize_length sanitize_clean by blast

text \<open>
  Claim C10: \<open>sanitize_filename\<close> is idempotent: applying it to its own result changes
  nothing.
\<close>

theorem sanitize_filename_idempotent:
  "sanitize_filename (sanitize_filename s) = sanitize_filename s"
  by (rule sanitize_fix [OF sanitize_clean sanitize_length])

section \<open>Properties of format\_timestamp\<close>

lemma floor_div_int:
  fixes x :: rat
  assumes k: "0 < k"
  shows "\<lfloor>x / of_int k\<rfloor> = \<lfloor>x\<rfloor> div k"
proof (rule floor_unique)
  define n where "n = \<lfloor>x\<rfloor>"
  have nx: "of_int n \<le> x" "x < of_int n + 1" unfolding n_def by linarith+
  have kr: "(0::rat) < of_int k" using k by simp
  have "k * (n div k) \<le> n" using k by (simp add: minus_mod_eq_mult_div [symmetric])
  then have "(of_int (k * (n div k)) :: rat) \<le> of_int n" by (simp only: of_int_le_iff)
  with nx(1) have "of_int (n div k) * of_int k \<le> x" by (simp add: mult.commute)
  then show "of_int (\<lfloor>x\<rfloor> div k) \<le> x / of_int k"
    using kr by (simp only: pos_le_divide_eq n_def)
  have "n mod k < k" using k by simp
  then have "n + 1 \<le> k * (n div k) + k"
    using mult_div_mod_eq [of k n] by linarith
  then have "(of_int (n + 1) :: rat) \<le> of_int (k * (n div k) + k)"
    by (simp only: of_int_le_iff)
  with nx(2) have "x < (of_int (n div k) + 1) * of_int k"
    by (simp add: algebra_simps)
  then show "x / of_int k < of_int (\<lfloor>x\<rfloor> div k) + 1"
    using kr by (simp only: pos_divide_less_eq n_def)
qed

lemma digits_lt10: "n < 10 \<Longrightarrow> digits n = [48 + n]"
  by (simp add: digits.simps)

lemma digits_lt100: "10 \<le> n \<Longrightarrow> n < 100 \<Longrightarrow> digits n = [48 + n div 10, 48 + n mod 10]"
  by (subst digits.simps) (simp add: digits_lt10)

lemma digits_lt1000:
  "100 \<le> n \<Longrightarrow> n < 1000 \<Longrightarrow> digits n = [48 + n div 100, 48 + n div 10 mod 10, 48 + n mod 10]"
  by (subst digits.simps) (simp add: digits_lt100 div_mult2_eq [symmetric])

lemma fmt_0d_2:
  assumes "0 \<le> i" "i < 100"
  shows "fmt_0d 2 i = [48 + nat i div 10, 48 + nat i mod 10]"
proof (cases "nat i < 10")
  case True
  then show ?thesis using assms by (simp add: fmt_0d_def digits_lt10)
next
  case False
  then show ?thesis using assms by (simp add: fmt_0d_def digits_lt100)
qed

lemma fmt_0d_3:
  assumes "0 \<le> i" "i < 1000"
  shows "fmt_0d 3 i = [48 + nat i div 100, 48 + nat i div 10 mod 10, 48 + nat i mod 10]"
proof -
  consider "nat i < 10" | "10 \<le> nat i" "nat i < 100" | "100 \<le> nat i" by linarith
  then show ?thesis
  proof cases
    case 1
    then show ?thesis using assms by (simp add: fmt_0d_def digits_lt10 numeral_2_eq_2)
  next
    case 2
    then show ?thesis using assms
      by (simp add: fmt_0d_def digits_lt100 numeral_3_eq_3)
  next
    case 3
    then show ?thesis using assms by (simp add: fmt_0d_def digits_lt1000)
  qed
qed

lemma fl_below_1000: "fl (1000 * (1 - 2 powi (- 53))) < 1000"
  by code_simp

lemma fl_below_100: "fl (100 * (1 - 2 powi (- 53))) < 100"
  by code_simp

lemma millis_bound:
  assumes "is_double f" "0 \<le> f" "f < 1"
  shows "0 \<le> fl (f * 1000)" "fl (f * 1000) < 1000"
proof -
  show "0 \<le> fl (f * 1000)" using assms(2) by (intro fl_nonneg) simp
  have "f \<le> 1 - 2 powi (- 53)" by (rule double_below_one [OF assms])
  then have "f * 1000 \<le> 1000 * (1 - 2 powi (- 53))" by simp
  then have "fl (f * 1000) \<le> fl (1000 * (1 - 2 powi (- 53)))" by (rule fl_mono)
  with fl_below_1000 show "fl (f * 1000) < 1000" by simp
qed

lemma centis_bound:
  assumes "is_double f" "0 \<le> f" "f < 1"
  shows "0 \<le> fl (f * 100)" "fl (f * 100) < 100"
proof -
  show "0 \<le> fl (f * 100)" using assms(2) by (intro fl_nonneg) simp
  have "f \<le> 1 - 2 powi (- 53)" by (rule double_below_one [OF assms])
  then have "f * 100 \<le> 100 * (1 - 2 powi (- 53))" by simp
  then have "fl (f * 100) \<le> fl (100 * (1 - 2 powi (- 53)))" by (rule fl_mono)
  with fl_below_100 show "fl (f * 100) < 100" by simp
qed


lemma pys_tags [simp]:
  "pys ''srt'' \<noteq> pys ''ass''" "pys ''ass'' \<noteq> pys ''srt''"
  by (simp_all add: pys_def)

lemma ts_hours:
  assumes s0: "0 \<le> s" and s1: "s < 2 ^ 53"
  shows "py_int (float_floor_div s (float_of_int 3600)) = \<lfloor>s\<rfloor> div 3600"
proof -
  have f3600: "\<lfloor>s / 3600\<rfloor> = \<lfloor>s\<rfloor> div 3600"
    using floor_div_int [of 3600 s] by simp
  have "float_floor_div s (of_int 3600) = of_int \<lfloor>s / of_int 3600\<rfloor>"
    using s0 s1 by (intro float_floor_div_exact) simp_all
  then have h: "float_floor_div s 3600 = of_int (\<lfloor>s\<rfloor> div 3600)"
    by (simp add: f3600)
  have "0 \<le> \<lfloor>s\<rfloor> div 3600" using s0 by (simp add: pos_imp_zdiv_nonneg_iff)
  then show ?thesis
    by (simp add: h py_int_def)
qed

lemma ts_parts:
  assumes d: "is_double s" and s: "0 \<le> s"
  defines "n \<equiv> \<lfloor>s\<rfloor>"
  shows "py_int (float_floor_div (float_rem s (float_of_int 3600)) (float_of_int 60)) = n div 60 mod 60"
    and "float_rem s (float_of_int 60) = s - 60 * of_int (n div 60)"
    and "py_int (float_rem s (float_of_int 60)) = n mod 60"
    and "fsub (float_rem s (float_of_int 60)) (float_of_int (py_int (float_rem s (float_of_int 60))))
         = s - of_int n"
proof -
  have n0: "0 \<le> n" using s by (simp add: n_def)
  have f3600: "\<lfloor>s / 3600\<rfloor> = n div 3600"
    using floor_div_int [of 3600 s] by (simp add: n_def)
  have f60: "\<lfloor>s / 60\<rfloor> = n div 60"
    using floor_div_int [of 60 s] by (simp add: n_def)
  define y where "y = float_rem s 3600"
  have y: "y = s - 3600 * of_int (n div 3600)"
    unfolding y_def using float_rem_nonneg [of s 3600] s by (simp add: f3600)
  have y0: "0 \<le> y" "y < 3600"
    using c_fmod_nonneg(2,3) [of s 3600] c_fmod_nonneg(1) [of s 3600] s
    by (simp_all add: y f3600)
  have fy: "\<lfloor>y\<rfloor> = n mod 3600"
  proof -
    have "y = s - of_int (3600 * (n div 3600))" by (simp add: y)
    then have "\<lfloor>y\<rfloor> = \<lfloor>s\<rfloor> - 3600 * (n div 3600)"
      by (simp only: floor_diff_of_int)
    then have "\<lfloor>y\<rfloor> = n - 3600 * (n div 3600)"
      by (simp only: n_def)
    then show ?thesis by (simp add: minus_mult_div_eq_mod)
  qed
  have "float_floor_div y (of_int 60) = of_int \<lfloor>y / of_int 60\<rfloor>"
    using y0 by (intro float_floor_div_exact) simp_all
  moreover have "\<lfloor>y / 60\<rfloor> = n mod 3600 div 60"
    using floor_div_int [of 60 y] by (simp add: fy)
  moreover have "n mod 3600 div 60 = n div 60 mod 60"
    using mod_mult2_eq' [of n 60 60] by simp
  ultimately have m: "float_floor_div y 60 = of_int (n div 60 mod 60)"
    by simp
  show "py_int (float_floor_div (float_rem s (float_of_int 3600)) (float_of_int 60)) = n div 60 mod 60"
    using m by (simp add: y_def py_int_def)
  have secs: "float_rem s 60 = s - 60 * of_int (n div 60)"
    using float_rem_nonneg [of s 60] s by (simp add: f60)
  then show "float_rem s (float_of_int 60) = s - 60 * of_int (n div 60)"
    by simp
  have secs0: "0 \<le> float_rem s 60"
    using c_fmod_nonneg(2) [of s 60] c_fmod_nonneg(1) [of s 60] s
    by (simp add: secs f60)
  have fs: "\<lfloor>float_rem s 60\<rfloor> = n mod 60"
  proof -
    have "float_rem s 60 = s - of_int (60 * (n div 60))" by (simp add: secs)
    then have "\<lfloor>float_rem s 60\<rfloor> = \<lfloor>s\<rfloor> - 60 * (n div 60)"
      by (simp only: floor_diff_of_int)
    then have "\<lfloor>float_rem s 60\<rfloor> = n - 60 * (n div 60)"
      by (simp only: n_def)
    then show ?thesis by (simp add: minus_mult_div_eq_mod)
  qed
  have pi: "py_int (float_rem s 60) = n mod 60"
    using secs0 fs by (simp add: py_int_def)
  then show "py_int (float_rem s (float_of_int 60)) = n mod 60"
    by simp
  have "\<bar>n mod 60\<bar> \<le> 2 ^ 53"
    using pos_mod_bound [of 60 n] pos_mod_sign [of 60 n] by simp
  then have fi: "float_of_int (n mod 60) = of_int (n mod 60)"
    by (rule float_of_int_small)
  have "(of_int (60 * (n div 60) + n mod 60) :: rat) = 60 * of_int (n div 60) + of_int (n mod 60)"
    by (simp only: of_int_add of_int_mult of_int_numeral)
  then have e2: "(of_int n :: rat) = 60 * of_int (n div 60) + of_int (n mod 60)"
    by (simp only: mult_div_mod_eq)
  have e: "s - 60 * of_int (n div 60) - of_int (n mod 60) = s - of_int n"
    unfolding e2 by simp
  have "is_double (s - of_int n)" unfolding n_def by (rule double_frac [OF d s])
  then have "fsub (float_rem s 60) (float_of_int (py_int (float_rem s 60))) = s - of_int n"
    unfolding pi fi unfolding secs fsub_def e by (simp add: is_double_def)
  then show "fsub (float_rem s (float_of_int 60)) (float_of_int (py_int (float_rem s (float_of_int 60))))
         = s - of_int n"
    by simp
qed


lemma py_int_nonneg: "0 \<le> x \<Longrightarrow> py_int x = \<lfloor>x\<rfloor>"
  by (simp add: py_int_def)

lemma format_timestamp_srt_closed:
  assumes d: "is_double s" and s: "0 \<le> s"
  shows "format_timestamp s (pys ''srt'') =
     fmt_0d 2 (py_int (float_floor_div s 3600)) @ pys '':'' @ fmt_0d 2 (\<lfloor>s\<rfloor> div 60 mod 60) @ pys '':''
     @ fmt_0d 2 (\<lfloor>s\<rfloor> mod 60) @ pys '','' @ fmt_0d 3 \<lfloor>fmul (s - of_int \<lfloor>s\<rfloor>) 1000\<rfloor>"
proof -
  have "0 \<le> fmul (s - of_int \<lfloor>s\<rfloor>) 1000"
    unfolding fmul_def by (intro fl_nonneg) (simp add: s)
  then have "py_int (fmul (s - of_int \<lfloor>s\<rfloor>) 1000) = \<lfloor>fmul (s - of_int \<lfloor>s\<rfloor>) 1000\<rfloor>"
    by (rule py_int_nonneg)
  then show ?thesis
    unfolding format_timestamp_def Let_def
    unfolding ts_parts(4) [OF d s]
    unfolding ts_parts(1,3) [OF d s]
    by simp
qed

lemma format_timestamp_ass_closed:
  assumes d: "is_double s" and s: "0 \<le> s"
  shows "format_timestamp s (pys ''ass'') =
     str_int (py_int (float_floor_div s 3600)) @ pys '':'' @ fmt_0d 2 (\<lfloor>s\<rfloor> div 60 mod 60) @ pys '':''
     @ fmt_0d 2 (\<lfloor>s\<rfloor> mod 60) @ pys ''.'' @ fmt_0d 2 \<lfloor>fmul (s - of_int \<lfloor>s\<rfloor>) 100\<rfloor>"
proof -
  have "0 \<le> fmul (s - of_int \<lfloor>s\<rfloor>) 100"
    unfolding fmul_def by (intro fl_nonneg) (simp add: s)
  then have "py_int (fmul (s - of_int \<lfloor>s\<rfloor>) 100) = \<lfloor>fmul (s - of_int \<lfloor>s\<rfloor>) 100\<rfloor>"
    by (rule py_int_nonneg)
  then show ?thesis
    unfolding format_timestamp_def Let_def
    unfolding ts_parts(4) [OF d s]
    unfolding ts_parts(1,3) [OF d s]
    by simp
qed

lemma frac_range:
  fixes s :: rat
  shows "0 \<le> s - of_int \<lfloor>s\<rfloor>" "s - of_int \<lfloor>s\<rfloor> < 1"
  by linarith+

lemma millis_range:
  assumes d: "is_double s" and s: "0 \<le> s"
  shows "0 \<le> \<lfloor>fmul (s - of_int \<lfloor>s\<rfloor>) 1000\<rfloor>" "\<lfloor>fmul (s - of_int \<lfloor>s\<rfloor>) 1000\<rfloor> < 1000"
  using millis_bound [OF double_frac [OF d s] frac_range]
  by (simp_all add: fmul_def floor_less_iff)

lemma centis_range:
  assumes d: "is_double s" and s: "0 \<le> s"
  shows "0 \<le> \<lfloor>fmul (s - of_int \<lfloor>s\<rfloor>) 100\<rfloor>" "\<lfloor>fmul (s - of_int \<lfloor>s\<rfloor>) 100\<rfloor> < 100"
  using centis_bound [OF double_frac [OF d s] frac_range]
  by (simp_all add: fmul_def floor_less_iff)

lemma format_timestamp_srt_fields:
  assumes d: "is_double s" and s: "0 \<le> s" "s \<le> 359999"
  shows "format_timestamp s (pys ''srt'') =
     two_digits (nat \<lfloor>s\<rfloor> div 3600) @ pys '':'' @ two_digits (nat \<lfloor>s\<rfloor> div 60 mod 60) @ pys '':''
     @ two_digits (nat \<lfloor>s\<rfloor> mod 60) @ pys '','' @ three_digits (nat \<lfloor>fmul (s - of_int \<lfloor>s\<rfloor>) 1000\<rfloor>)"
proof -
  define n where "n = \<lfloor>s\<rfloor>"
  have n: "0 \<le> n" "n \<le> 359999" using s by (simp_all add: n_def floor_le_iff le_floor_iff)
  have s53: "s < 2 ^ 53" using s(2) by simp
  have h: "py_int (float_floor_div s 3600) = n div 3600"
    using ts_hours [OF s(1) s53] by (simp add: n_def)
  have h1: "0 \<le> n div 3600" "n div 3600 < 100" using n by simp_all
  have m1: "0 \<le> n div 60 mod 60" "n div 60 mod 60 < 100"
    using pos_mod_bound [of 60 "n div 60"] pos_mod_sign [of 60 "n div 60"] by simp_all
  have s1: "0 \<le> n mod 60" "n mod 60 < 100"
    using pos_mod_bound [of 60 n] pos_mod_sign [of 60 n] by simp_all
  note ms = millis_range [OF d s(1)]
  show ?thesis
    unfolding format_timestamp_srt_closed [OF d s(1)] h n_def [symmetric]
      fmt_0d_2 [OF h1] fmt_0d_2 [OF m1] fmt_0d_2 [OF s1] fmt_0d_3 [OF ms [unfolded n_def [symmetric]]]
    using n by (simp add: two_digits_def three_digits_def nat_div_distrib nat_mod_distrib)
qed

lemma v1: "fl (36612345 / 10000) = 8051139809529299 / 2199023255552"
  by code_simp

lemma v2: "\<lfloor>(8051139809529299 / 2199023255552 :: rat)\<rfloor> = 3661"
  by code_simp

lemma v3: "\<lfloor>fmul (8051139809529299 / 2199023255552 - 3661) 1000\<rfloor> = 234"
  by code_simp

lemma v4: "\<lfloor>fmul (8051139809529299 / 2199023255552 - 3661) 100\<rfloor> = 23"
  by code_simp

lemma ex_srt: "format_timestamp (fl (36612345 / 10000)) (pys ''srt'') = pys ''01:01:01,234''"
proof -
  define s where "s = fl (36612345 / 10000)"
  have d: "is_double s" by (simp add: s_def)
  have v: "s = 8051139809529299 / 2199023255552" unfolding s_def by (rule v1)
  have r: "0 \<le> s" "s \<le> 359999" unfolding v by simp_all
  have n: "\<lfloor>s\<rfloor> = 3661" unfolding v by (rule v2)
  have ms: "\<lfloor>fmul (s - 3661) 1000\<rfloor> = 234" unfolding v by (rule v3)
  show ?thesis
    unfolding s_def [symmetric] format_timestamp_srt_fields [OF d r] n
    by (simp add: ms two_digits_def three_digits_def pys_def)
qed

lemma float_floor_div_nonneg:
  assumes x: "0 \<le> x" and w: "0 < w"
  shows "0 \<le> float_floor_div x w"
proof -
  note md = c_fmod_nonneg [OF x w]
  have "0 \<le> \<lfloor>x / w\<rfloor>" using x w by simp
  then have "0 \<le> w * of_int \<lfloor>x / w\<rfloor>" using w by simp
  then have "0 \<le> x - c_fmod x w"
    by (simp add: md(1))
  then have "0 \<le> fsub x (c_fmod x w)"
    unfolding fsub_def by (rule fl_nonneg)
  then have "0 \<le> fsub x (c_fmod x w) / w"
    using w by simp
  then have d0: "0 \<le> fdiv (fsub x (c_fmod x w)) w"
    unfolding fdiv_def by (rule fl_nonneg)
  define dv where "dv = fdiv (fsub x (c_fmod x w)) w"
  have f0: "0 \<le> (of_int \<lfloor>dv\<rfloor> :: rat)" using d0 by (simp add: dv_def)
  then have "0 \<le> fadd (of_int \<lfloor>dv\<rfloor>) 1"
    unfolding fadd_def by (intro fl_nonneg) simp
  with f0 show ?thesis
    using md(2) w by (simp add: float_floor_div_def Let_def dv_def [symmetric])
qed

lemma fl_minus_one [simp]: "fl (- 1) = - 1"
  using fl_of_int [of "- 1"] by simp

lemma float_floor_div_neg:
  assumes x: "x < 0" and w: "0 < w" "is_double w"
  shows "float_floor_div x w \<le> - 1"
proof -
  define j where "j = \<lceil>x / w\<rceil>"
  have q: "x / w < 0" using x w(1) by (simp add: divide_neg_pos)
  then have j0: "j \<le> 0" by (simp add: j_def ceiling_le_iff)
  have md: "c_fmod x w = x - w * of_int j"
    using q by (simp add: c_fmod_def py_int_def j_def)
  have "x / w \<le> of_int j" by (simp add: j_def)
  then have xw: "x \<le> of_int j * w"
    using w(1) by (simp only: pos_divide_le_eq)
  then have md0: "c_fmod x w \<le> 0" by (simp add: md mult.commute)
  define div0 where "div0 = fdiv (fsub x (c_fmod x w)) w"
  define div1 where "div1 = (if c_fmod x w \<noteq> 0 \<and> (w < 0) \<noteq> (c_fmod x w < 0) then fsub div0 1 else div0)"
  have "div1 \<le> - 1"
  proof (cases "c_fmod x w = 0")
    case True
    then have e: "x = of_int j * w" by (simp add: md mult.commute)
    with x w(1) have "of_int j * w < 0 * w" by simp
    then have "(of_int j :: rat) < 0" using w(1) by (simp only: mult_less_cancel_right_pos)
    then have "j \<le> - 1" by simp
    then have "(of_int j :: rat) \<le> - 1" by (simp add: of_int_le_iff [of j "- 1", where ?'a = rat, simplified])
    then have "of_int j * w \<le> - 1 * w" using w(1) by (intro mult_right_mono) simp_all
    then have "x \<le> - w" by (simp add: e)
    then have "fl x \<le> fl (- w)" by (rule fl_mono)
    then have "fl x \<le> - w" using w(2) by (simp add: fl_minus is_double_def)
    then have "fl x / w \<le> - 1" using w(1) by (simp add: pos_divide_le_eq)
    then have "fl (fl x / w) \<le> fl (- 1)" by (rule fl_mono)
    then show ?thesis using True by (simp add: div1_def div0_def fdiv_def fsub_def)
  next
    case False
    with md0 have neg: "c_fmod x w < 0" by simp
    have "x - c_fmod x w = w * of_int j" by (simp add: md)
    also have "\<dots> \<le> 0" using w(1) j0 by (simp add: mult_le_0_iff)
    finally have "fl (x - c_fmod x w) \<le> fl 0" by (rule fl_mono)
    then have "fl (x - c_fmod x w) / w \<le> 0" using w(1) by (simp add: divide_le_0_iff)
    then have "fl (fl (x - c_fmod x w) / w) \<le> fl 0" by (rule fl_mono)
    then have "div0 \<le> 0" by (simp add: div0_def fdiv_def fsub_def)
    then have "div0 - 1 \<le> - 1" by simp
    then have "fl (div0 - 1) \<le> fl (- 1)" by (rule fl_mono)
    then show ?thesis using False neg w(1) by (simp add: div1_def fsub_def)
  qed
  then have d1: "div1 \<le> - 1" "div1 \<noteq> 0" by simp_all
  have fd: "(of_int \<lfloor>div1\<rfloor> :: rat) \<le> - 1"
    using d1(1) by linarith
  have "fadd (of_int \<lfloor>div1\<rfloor>) 1 \<le> - 1" if h: "1 / 2 < fsub div1 (of_int \<lfloor>div1\<rfloor>)"
  proof -
    have "div1 \<noteq> of_int \<lfloor>div1\<rfloor>"
    proof
      assume "div1 = of_int \<lfloor>div1\<rfloor>"
      then have "fsub div1 (of_int \<lfloor>div1\<rfloor>) = 0" by (simp add: fsub_def)
      with h show False by simp
    qed
    then have "div1 \<noteq> - 1" by auto
    with d1(1) have "div1 < - 1" by simp
    then have "\<lfloor>div1\<rfloor> < - 1" by (simp add: floor_less_iff)
    then have "\<lfloor>div1\<rfloor> + 1 \<le> - 1" by simp
    then have "(of_int (\<lfloor>div1\<rfloor> + 1) :: rat) \<le> of_int (- 1)" by (simp only: of_int_le_iff)
    then have "(of_int \<lfloor>div1\<rfloor> :: rat) + 1 \<le> - 1" by simp
    then have "fl (of_int \<lfloor>div1\<rfloor> + 1) \<le> fl (- 1)" by (rule fl_mono)
    then show ?thesis by (simp add: fadd_def)
  qed
  then show ?thesis
    using d1 fd
    unfolding float_floor_div_def Let_def div0_def [symmetric] div1_def [symmetric]
    by simp
qed

lemma py_int_neg: "x \<le> - 1 \<Longrightarrow> py_int x \<le> - 1"
  by (simp add: py_int_def ceiling_le_iff)

lemma neg_parts:
  "float_floor_div (- 3 / 2) 3600 = - 1"
  "float_rem (- 3 / 2) 3600 = 7197 / 2"
  "float_floor_div (7197 / 2) 60 = 59"
  "float_rem (- 3 / 2) 60 = 117 / 2"
  "py_int (117 / 2) = 58"
  "fmul (fsub (117 / 2) (float_of_int 58)) 1000 = 500"
  by code_simp+

lemma cx6: "format_timestamp (- 3 / 2) (pys ''srt'') = pys ''-1:59:58,500''"
  unfolding format_timestamp_def Let_def float_of_int_consts neg_parts
  by code_simp

lemma two_digits_shape:
  "n < 100 \<Longrightarrow> length (two_digits n) = 2 \<and> list_all is_digit (two_digits n)"
  by (simp add: two_digits_def is_digit_def) arith

lemma three_digits_shape:
  "n < 1000 \<Longrightarrow> length (three_digits n) = 3 \<and> list_all is_digit (three_digits n)"
  by (simp add: three_digits_def is_digit_def) arith

lemma digits_nonempty: "digits n \<noteq> []"
  by (subst digits.simps) simp

lemma digits_all_digit: "list_all is_digit (digits n)"
proof (induction n rule: digits.induct)
  case (1 n)
  show ?case
  proof (cases "n < 10")
    case True
    then show ?thesis by (simp add: digits_lt10 is_digit_def)
  next
    case False
    have "n mod 10 < 10" by simp
    then have "is_digit (48 + n mod 10)" unfolding is_digit_def by linarith
    with 1 False show ?thesis by (subst digits.simps) simp
  qed
qed

lemma digits_leading: "0 < n \<Longrightarrow> hd (digits n) \<noteq> 48"
proof (induction n rule: digits.induct)
  case (1 n)
  show ?case
  proof (cases "n < 10")
    case True
    with 1(2) show ?thesis by (simp add: digits_lt10)
  next
    case False
    then have "0 < n div 10" by simp
    with 1(1) False have "hd (digits (n div 10)) \<noteq> 48" by simp
    then show ?thesis
      using False digits_nonempty [of "n div 10"] by (subst digits.simps) simp
  qed
qed

lemma digits_decimal: "decimal_numeral (digits n)"
proof (cases "n = 0")
  case True
  then show ?thesis by (simp add: decimal_numeral_def digits_lt10 is_digit_def)
next
  case False
  then show ?thesis
    using digits_leading [of n] digits_all_digit [of n] digits_nonempty [of n]
    by (simp add: decimal_numeral_def)
qed

lemma digit_tens: "n < 100 \<Longrightarrow> is_digit (48 + n div 10)"
  unfolding is_digit_def by linarith

lemma digit_units: "is_digit (48 + n mod 10)"
proof -
  have "n mod 10 < 10" by simp
  then show ?thesis unfolding is_digit_def by linarith
qed

lemma digit_hundreds: "n < 1000 \<Longrightarrow> is_digit (48 + n div 100)"
  unfolding is_digit_def by linarith

lemma srt_shape_fields:
  assumes "h < 100" "m < 100" "sec < 100" "ms < 1000"
  shows "srt_shape (two_digits h @ pys '':'' @ two_digits m @ pys '':'' @ two_digits sec
           @ pys '','' @ three_digits ms)"
  using assms digit_units [of "ms div 10"]
  by (simp add: srt_shape_def two_digits_def three_digits_def pys_def digit_tens digit_units
      digit_hundreds)

lemma ass_tail_shape_fields:
  assumes "m < 100" "sec < 100" "cs < 100"
  shows "ass_tail_shape (pys '':'' @ two_digits m @ pys '':'' @ two_digits sec
           @ pys ''.'' @ two_digits cs)"
  using assms
  by (simp add: ass_tail_shape_def two_digits_def pys_def digit_tens digit_units)

lemma srt_all:
  assumes d: "is_double s" and s: "0 \<le> s" "s \<le> 359999"
  shows "srt_shape (format_timestamp s (pys ''srt''))"
proof -
  have n: "0 \<le> \<lfloor>s\<rfloor>" "\<lfloor>s\<rfloor> \<le> 359999" using s by (simp_all add: floor_le_iff le_floor_iff)
  then have h: "nat \<lfloor>s\<rfloor> div 3600 < 100" by linarith
  have m: "nat \<lfloor>s\<rfloor> div 60 mod 60 < 100"
    using mod_less_divisor [of 60 "nat \<lfloor>s\<rfloor> div 60"] by linarith
  have sec: "nat \<lfloor>s\<rfloor> mod 60 < 100"
    using mod_less_divisor [of 60 "nat \<lfloor>s\<rfloor>"] by linarith
  have ms: "nat \<lfloor>fmul (s - of_int \<lfloor>s\<rfloor>) 1000\<rfloor> < 1000"
    using millis_range [OF d s(1)] by linarith
  show ?thesis
    unfolding format_timestamp_srt_fields [OF d s]
    by (rule srt_shape_fields [OF h m sec ms])
qed

lemma trunc_bounds:
  assumes z: "0 \<le> z" "z < 2 ^ 52"
  shows "\<lfloor>z\<rfloor> \<le> \<lfloor>fl z\<rfloor>" "\<lfloor>fl z\<rfloor> \<le> \<lfloor>z\<rfloor> + 1"
    "\<lfloor>fl z\<rfloor> = \<lfloor>z\<rfloor> \<or> fl z = of_int (\<lfloor>z\<rfloor> + 1)"
proof -
  define n where "n = \<lfloor>z\<rfloor>"
  have n: "0 \<le> n" "of_int n \<le> z" "z < of_int (n + 1)"
    using z(1) unfolding n_def by (simp, linarith, linarith)
  have "(of_int n :: rat) < of_int (2 ^ 52)" using n(2) z(2) by simp
  then have n52: "n < 2 ^ 52" by (simp only: of_int_less_iff)
  have f0: "fl (of_int n) = of_int n" using n(1) n52 by (intro fl_of_int) simp
  have f1: "fl (of_int (n + 1)) = of_int (n + 1)" using n(1) n52 by (intro fl_of_int) simp
  have lo: "of_int n \<le> fl z" using fl_mono [OF n(2)] by (simp only: f0)
  have "z \<le> of_int (n + 1)" using n(3) by simp
  then have hi: "fl z \<le> of_int (n + 1)" using fl_mono [of z "of_int (n + 1)"] by (simp only: f1)
  show a: "\<lfloor>z\<rfloor> \<le> \<lfloor>fl z\<rfloor>" using lo by (simp add: le_floor_iff n_def)
  have "\<lfloor>fl z\<rfloor> \<le> \<lfloor>of_int (n + 1) :: rat\<rfloor>" by (rule floor_mono [OF hi])
  then show b: "\<lfloor>fl z\<rfloor> \<le> \<lfloor>z\<rfloor> + 1"
    by (simp add: n_def)
  show "\<lfloor>fl z\<rfloor> = \<lfloor>z\<rfloor> \<or> fl z = of_int (\<lfloor>z\<rfloor> + 1)"
  proof (cases "\<lfloor>fl z\<rfloor> = \<lfloor>z\<rfloor>")
    case True
    then show ?thesis by simp
  next
    case False
    with a b have "\<lfloor>fl z\<rfloor> = n + 1" by (simp add: n_def)
    then have "of_int (n + 1) \<le> fl z" by linarith
    with hi have "fl z = of_int (n + 1)" by simp
    then show ?thesis by (simp add: n_def)
  qed
qed


lemma millis_vs_exact:
  assumes d: "is_double s" and s: "0 \<le> s"
  shows "\<lfloor>(s - of_int \<lfloor>s\<rfloor>) * 1000\<rfloor> \<le> \<lfloor>fmul (s - of_int \<lfloor>s\<rfloor>) 1000\<rfloor>"
    "\<lfloor>fmul (s - of_int \<lfloor>s\<rfloor>) 1000\<rfloor> \<le> \<lfloor>(s - of_int \<lfloor>s\<rfloor>) * 1000\<rfloor> + 1"
    "\<lfloor>fmul (s - of_int \<lfloor>s\<rfloor>) 1000\<rfloor> = \<lfloor>(s - of_int \<lfloor>s\<rfloor>) * 1000\<rfloor> \<or>
     fmul (s - of_int \<lfloor>s\<rfloor>) 1000 = of_int (\<lfloor>(s - of_int \<lfloor>s\<rfloor>) * 1000\<rfloor> + 1)"
proof -
  have z: "0 \<le> (s - of_int \<lfloor>s\<rfloor>) * 1000" "(s - of_int \<lfloor>s\<rfloor>) * 1000 < 2 ^ 52"
    using frac_range [of s] by simp_all
  show "\<lfloor>(s - of_int \<lfloor>s\<rfloor>) * 1000\<rfloor> \<le> \<lfloor>fmul (s - of_int \<lfloor>s\<rfloor>) 1000\<rfloor>"
    "\<lfloor>fmul (s - of_int \<lfloor>s\<rfloor>) 1000\<rfloor> \<le> \<lfloor>(s - of_int \<lfloor>s\<rfloor>) * 1000\<rfloor> + 1"
    "\<lfloor>fmul (s - of_int \<lfloor>s\<rfloor>) 1000\<rfloor> = \<lfloor>(s - of_int \<lfloor>s\<rfloor>) * 1000\<rfloor> \<or>
     fmul (s - of_int \<lfloor>s\<rfloor>) 1000 = of_int (\<lfloor>(s - of_int \<lfloor>s\<rfloor>) * 1000\<rfloor> + 1)"
    unfolding fmul_def by (rule trunc_bounds [OF z])+
qed

lemma centis_vs_exact:
  assumes d: "is_double s" and s: "0 \<le> s"
  shows "\<lfloor>(s - of_int \<lfloor>s\<rfloor>) * 100\<rfloor> \<le> \<lfloor>fmul (s - of_int \<lfloor>s\<rfloor>) 100\<rfloor>"
    "\<lfloor>fmul (s - of_int \<lfloor>s\<rfloor>) 100\<rfloor> \<le> \<lfloor>(s - of_int \<lfloor>s\<rfloor>) * 100\<rfloor> + 1"
    "\<lfloor>fmul (s - of_int \<lfloor>s\<rfloor>) 100\<rfloor> = \<lfloor>(s - of_int \<lfloor>s\<rfloor>) * 100\<rfloor> \<or>
     fmul (s - of_int \<lfloor>s\<rfloor>) 100 = of_int (\<lfloor>(s - of_int \<lfloor>s\<rfloor>) * 100\<rfloor> + 1)"
proof -
  have z: "0 \<le> (s - of_int \<lfloor>s\<rfloor>) * 100" "(s - of_int \<lfloor>s\<rfloor>) * 100 < 2 ^ 52"
    using frac_range [of s] by simp_all
  show "\<lfloor>(s - of_int \<lfloor>s\<rfloor>) * 100\<rfloor> \<le> \<lfloor>fmul (s - of_int \<lfloor>s\<rfloor>) 100\<rfloor>"
    "\<lfloor>fmul (s - of_int \<lfloor>s\<rfloor>) 100\<rfloor> \<le> \<lfloor>(s - of_int \<lfloor>s\<rfloor>) * 100\<rfloor> + 1"
    "\<lfloor>fmul (s - of_int \<lfloor>s\<rfloor>) 100\<rfloor> = \<lfloor>(s - of_int \<lfloor>s\<rfloor>) * 100\<rfloor> \<or>
     fmul (s - of_int \<lfloor>s\<rfloor>) 100 = of_int (\<lfloor>(s - of_int \<lfloor>s\<rfloor>) * 100\<rfloor> + 1)"
    unfolding fmul_def by (rule trunc_bounds [OF z])+
qed

lemma val_0009: "fl (9 / 1000) = 5188146770730811 / 576460752303423488"
  by code_simp

lemma val_0009_parts:
  "nat \<lfloor>5188146770730811 / 576460752303423488 :: rat\<rfloor> = 0"
  "nat \<lfloor>fmul (5188146770730811 / 576460752303423488 - of_int \<lfloor>5188146770730811 / 576460752303423488 :: rat\<rfloor>) 1000\<rfloor> = 9"
  "\<lfloor>(5188146770730811 / 576460752303423488 - of_int \<lfloor>5188146770730811 / 576460752303423488 :: rat\<rfloor>) * 1000 :: rat\<rfloor> = 8"
  by code_simp+

lemma val_003: "fl (3 / 100) = 1080863910568919 / 36028797018963968"
  by code_simp

lemma val_003_parts:
  "nat \<lfloor>1080863910568919 / 36028797018963968 :: rat\<rfloor> = 0"
  "nat \<lfloor>fmul (1080863910568919 / 36028797018963968 - of_int \<lfloor>1080863910568919 / 36028797018963968 :: rat\<rfloor>) 100\<rfloor> = 3"
  "\<lfloor>(1080863910568919 / 36028797018963968 - of_int \<lfloor>1080863910568919 / 36028797018963968 :: rat\<rfloor>) * 100 :: rat\<rfloor> = 2"
  by code_simp+

text \<open>
  Claim C1, as stated, says that the sub-second component is truncated to milliseconds.
  The code truncates the binary64 product of the sub-second component with 1000, and that
  product is rounded before \<open>int\<close> truncates it. At the binary64 number nearest to
  \<open>0.009\<close>, which lies below \<open>0.009\<close>, the exact product is below 9 and truncates to 8,
  but its rounding is \<open>9.0\<close>: the code prints \<open>,009\<close>.
\<close>

theorem format_timestamp_srt_truncation_counterexample:
  "is_double (fl (9 / 1000)) \<and> 0 \<le> fl (9 / 1000) \<and> fl (9 / 1000) \<le> 359999 \<and>
   format_timestamp (fl (9 / 1000)) (pys ''srt'') = pys ''00:00:00,009'' \<and>
   \<lfloor>(fl (9 / 1000) - of_int \<lfloor>fl (9 / 1000)\<rfloor>) * 1000\<rfloor> = 8"
proof -
  have d: "is_double (fl (9 / 1000))" by simp
  have r: "0 \<le> fl (9 / 1000)" "fl (9 / 1000) \<le> 359999" unfolding val_0009 by simp_all
  have f: "format_timestamp (fl (9 / 1000)) (pys ''srt'') = pys ''00:00:00,009''"
    unfolding format_timestamp_srt_fields [OF d r]
    unfolding val_0009 val_0009_parts
    by (simp add: two_digits_def three_digits_def pys_def)
  have t: "\<lfloor>(fl (9 / 1000) - of_int \<lfloor>fl (9 / 1000)\<rfloor>) * 1000\<rfloor> = 8"
    unfolding val_0009 by (rule val_0009_parts(3))
  show ?thesis using d r f t by blast
qed

text \<open>
  Claim C1, amended: for every binary64 value \<open>s\<close> with \<open>0 \<le> s \<le> 359999\<close>,
  \<open>format_timestamp(s, "srt")\<close> has the form \<open>HH:MM:SS,mmm\<close>: twelve characters,
  digits everywhere but for the colons at positions 2 and 5 and the comma at position 8.
  The fields are the hours, minutes and seconds of \<open>\<lfloor>s\<rfloor>\<close>, zero-padded to two digits,
  and the milliseconds, zero-padded to three digits. The milliseconds are \<open>int\<close> of the
  binary64 product of the sub-second component \<open>s - \<lfloor>s\<rfloor>\<close> with 1000: never less than
  the truncation of the exact product, at most one more, and one more only when the
  product rounds up to that integer; the field is never rounded to the nearest
  millisecond. In particular \<open>format_timestamp(3661.2345, "srt") = "01:01:01,234"\<close>,
  where \<open>3661.2345\<close> denotes the binary64 number nearest to that decimal.
\<close>

theorem format_timestamp_srt:
  "(\<forall>s. is_double s \<and> 0 \<le> s \<and> s \<le> 359999 \<longrightarrow>
      srt_shape (format_timestamp s (pys ''srt'')) \<and>
      format_timestamp s (pys ''srt'') =
        two_digits (nat \<lfloor>s\<rfloor> div 3600) @ pys '':'' @ two_digits (nat \<lfloor>s\<rfloor> div 60 mod 60)
        @ pys '':'' @ two_digits (nat \<lfloor>s\<rfloor> mod 60) @ pys '',''
        @ three_digits (nat \<lfloor>fmul (s - of_int \<lfloor>s\<rfloor>) 1000\<rfloor>) \<and>
      \<lfloor>(s - of_int \<lfloor>s\<rfloor>) * 1000\<rfloor> \<le> \<lfloor>fmul (s - of_int \<lfloor>s\<rfloor>) 1000\<rfloor> \<and>
      \<lfloor>fmul (s - of_int \<lfloor>s\<rfloor>) 1000\<rfloor> \<le> \<lfloor>(s - of_int \<lfloor>s\<rfloor>) * 1000\<rfloor> + 1 \<and>
      (\<lfloor>fmul (s - of_int \<lfloor>s\<rfloor>) 1000\<rfloor> = \<lfloor>(s - of_int \<lfloor>s\<rfloor>) * 1000\<rfloor> \<or>
       fmul (s - of_int \<lfloor>s\<rfloor>) 1000 = of_int (\<lfloor>(s - of_int \<lfloor>s\<rfloor>) * 1000\<rfloor> + 1))) \<and>
   format_timestamp (fl (36612345 / 10000)) (pys ''srt'') = pys ''01:01:01,234''"
proof -
  have "srt_shape (format_timestamp s (pys ''srt'')) \<and>
      format_timestamp s (pys ''srt'') =
        two_digits (nat \<lfloor>s\<rfloor> div 3600) @ pys '':'' @ two_digits (nat \<lfloor>s\<rfloor> div 60 mod 60)
        @ pys '':'' @ two_digits (nat \<lfloor>s\<rfloor> mod 60) @ pys '',''
        @ three_digits (nat \<lfloor>fmul (s - of_int \<lfloor>s\<rfloor>) 1000\<rfloor>) \<and>
      \<lfloor>(s - of_int \<lfloor>s\<rfloor>) * 1000\<rfloor> \<le> \<lfloor>fmul (s - of_int \<lfloor>s\<rfloor>) 1000\<rfloor> \<and>
      \<lfloor>fmul (s - of_int \<lfloor>s\<rfloor>) 1000\<rfloor> \<le> \<lfloor>(s - of_int \<lfloor>s\<rfloor>) * 1000\<rfloor> + 1 \<and>
      (\<lfloor>fmul (s - of_int \<lfloor>s\<rfloor>) 1000\<rfloor> = \<lfloor>(s - of_int \<lfloor>s\<rfloor>) * 1000\<rfloor> \<or>
       fmul (s - of_int \<lfloor>s\<rfloor>) 1000 = of_int (\<lfloor>(s - of_int \<lfloor>s\<rfloor>) * 1000\<rfloor> + 1))"
    if "is_double s" "0 \<le> s" "s \<le> 359999" for s
    using srt_all [OF that] format_timestamp_srt_fields [OF that]
      millis_vs_exact [OF that(1,2)]
    by (intro conjI)
  then show ?thesis
    using ex_srt by blast
qed

lemma double_3_2: "is_double (3 / 2)"
  unfolding is_double_def by code_simp

lemma half_ms: "nat \<lfloor>fmul (3 / 2 - of_int \<lfloor>3 / 2 :: rat\<rfloor>) 1000\<rfloor> = 500" "nat \<lfloor>3 / 2 :: rat\<rfloor> = 1"
  by code_simp+

text \<open>The theorem of claim C1 at \<open>s = 1.5\<close>.\<close>

theorem format_timestamp_srt_witness:
  "is_double (3 / 2) \<and> (0::rat) \<le> 3 / 2 \<and> (3 / 2 :: rat) \<le> 359999 \<and>
   srt_shape (format_timestamp (3 / 2) (pys ''srt'')) \<and>
   format_timestamp (3 / 2) (pys ''srt'') = pys ''00:00:01,500''"
proof -
  have a: "is_double (3 / 2) \<and> (0::rat) \<le> 3 / 2 \<and> (3 / 2 :: rat) \<le> 359999"
    using double_3_2 by simp
  from format_timestamp_srt have
    "srt_shape (format_timestamp (3 / 2) (pys ''srt'')) \<and>
     format_timestamp (3 / 2) (pys ''srt'') =
        two_digits (nat \<lfloor>3 / 2 :: rat\<rfloor> div 3600) @ pys '':'' @ two_digits (nat \<lfloor>3 / 2 :: rat\<rfloor> div 60 mod 60)
        @ pys '':'' @ two_digits (nat \<lfloor>3 / 2 :: rat\<rfloor> mod 60) @ pys '',''
        @ three_digits (nat \<lfloor>fmul (3 / 2 - of_int \<lfloor>3 / 2 :: rat\<rfloor>) 1000\<rfloor>)"
    using a by blast
  then show ?thesis
    using a unfolding half_ms by (auto simp add: two_digits_def three_digits_def pys_def)
qed

lemma ex_ass: "format_timestamp (fl (36612345 / 10000)) (pys ''ass'') = pys ''1:01:01.23''"
proof -
  define s where "s = fl (36612345 / 10000)"
  have d: "is_double s" by (simp add: s_def)
  have v: "s = 8051139809529299 / 2199023255552" unfolding s_def by (rule v1)
  have r: "0 \<le> s" "s < 2 ^ 53" unfolding v by simp_all
  have n: "\<lfloor>s\<rfloor> = 3661" unfolding v by (rule v2)
  have cs: "\<lfloor>fmul (s - 3661) 100\<rfloor> = 23" unfolding v by (rule v4)
  have h: "py_int (float_floor_div s 3600) = 1"
    using ts_hours [OF r] by (simp add: n)
  show ?thesis
    unfolding s_def [symmetric] format_timestamp_ass_closed [OF d r(1)] n h
    by (simp add: cs fmt_0d_def str_int_def digits_lt10 digits_lt100 pys_def)
qed

lemma format_timestamp_ass_fields:
  assumes d: "is_double s" and s: "0 \<le> s"
  shows "format_timestamp s (pys ''ass'') =
     digits (nat (py_int (float_floor_div s 3600))) @ pys '':'' @ two_digits (nat \<lfloor>s\<rfloor> div 60 mod 60)
     @ pys '':'' @ two_digits (nat \<lfloor>s\<rfloor> mod 60) @ pys ''.''
     @ two_digits (nat \<lfloor>fmul (s - of_int \<lfloor>s\<rfloor>) 100\<rfloor>)"
proof -
  define n where "n = \<lfloor>s\<rfloor>"
  have n: "0 \<le> n" using s by (simp add: n_def)
  have "0 \<le> float_floor_div s 3600" using s by (intro float_floor_div_nonneg) simp_all
  then have h: "0 \<le> py_int (float_floor_div s 3600)" by (simp add: py_int_def)
  have m1: "0 \<le> n div 60 mod 60" "n div 60 mod 60 < 100"
    using pos_mod_bound [of 60 "n div 60"] pos_mod_sign [of 60 "n div 60"] by simp_all
  have s1: "0 \<le> n mod 60" "n mod 60 < 100"
    using pos_mod_bound [of 60 n] pos_mod_sign [of 60 n] by simp_all
  note cs = centis_range [OF d s]
  show ?thesis
    unfolding format_timestamp_ass_closed [OF d s] n_def [symmetric]
      fmt_0d_2 [OF m1] fmt_0d_2 [OF s1] fmt_0d_2 [OF cs [unfolded n_def [symmetric]]]
    using n h by (simp add: two_digits_def str_int_def nat_div_distrib nat_mod_distrib)
qed

lemma ass_all:
  assumes d: "is_double s" and s: "0 \<le> s"
  shows "ass_tail_shape (pys '':'' @ two_digits (nat \<lfloor>s\<rfloor> div 60 mod 60)
     @ pys '':'' @ two_digits (nat \<lfloor>s\<rfloor> mod 60) @ pys ''.''
     @ two_digits (nat \<lfloor>fmul (s - of_int \<lfloor>s\<rfloor>) 100\<rfloor>))"
proof -
  have m: "nat \<lfloor>s\<rfloor> div 60 mod 60 < 100"
    using mod_less_divisor [of 60 "nat \<lfloor>s\<rfloor> div 60"] by linarith
  have sec: "nat \<lfloor>s\<rfloor> mod 60 < 100"
    using mod_less_divisor [of 60 "nat \<lfloor>s\<rfloor>"] by linarith
  have cs: "nat \<lfloor>fmul (s - of_int \<lfloor>s\<rfloor>) 100\<rfloor> < 100"
    using centis_range [OF d s] by linarith
  show ?thesis by (rule ass_tail_shape_fields [OF m sec cs])
qed

lemma ass_hours:
  assumes "0 \<le> s" "s < 2 ^ 53"
  shows "nat (py_int (float_floor_div s 3600)) = nat \<lfloor>s\<rfloor> div 3600"
  using ts_hours [OF assms] assms(1) by (simp add: nat_div_distrib)



lemma half_cs: "nat \<lfloor>fmul (3 / 2 - of_int \<lfloor>3 / 2 :: rat\<rfloor>) 100\<rfloor> = 50"
  by code_simp


lemma double_3600: "is_double 3600"
  using fl_of_int [of 3600] by (simp add: is_double_def)

lemma hours_negative:
  assumes "s < 0"
  shows "py_int (float_floor_div s (float_of_int 3600)) < 0"
proof -
  have "float_floor_div s 3600 \<le> - 1"
    using assms double_3600 by (intro float_floor_div_neg) simp_all
  then have "py_int (float_floor_div s 3600) \<le> - 1" by (rule py_int_neg)
  then show ?thesis by simp
qed

lemma minus_first:
  "h < 0 \<Longrightarrow> take 1 (fmt_0d w h @ r) = [45]" "h < 0 \<Longrightarrow> take 1 (str_int h @ r) = [45]"
  by (simp_all add: fmt_0d_def str_int_def Let_def)




section \<open>Properties of the subtitle writers\<close>

lemma srt_loop_blocks:
  "srt_loop i segs f = f @ concat (map (\<lambda>(i, seg). srt_block i seg) (List.enumerate i segs))"
proof (induction segs arbitrary: i f)
  case Nil
  then show ?case by simp
next
  case (Cons seg segs)
  then show ?case
    by (simp add: Let_def srt_block_def nl_line_def pys_def)
qed

lemma create_srt_blocks: "create_srt segs = srt_blocks segs"
  by (simp add: create_srt_def srt_blocks_def srt_loop_blocks)

lemma srt_stamp_0: "format_timestamp 0 (pys ''srt'') = pys ''00:00:00,000''"
proof -
  have d: "is_double 0" by (simp add: is_double_def)
  have r: "(0::rat) \<le> 0" "(0::rat) \<le> 359999" by simp_all
  have f: "nat \<lfloor>0::rat\<rfloor> = 0" "nat \<lfloor>fmul (0 - of_int \<lfloor>0::rat\<rfloor>) 1000\<rfloor> = 0"
    by code_simp+
  show ?thesis
    unfolding format_timestamp_srt_fields [OF d r] f
    by (simp add: two_digits_def three_digits_def pys_def)
qed

lemma srt_stamp_1: "format_timestamp 1 (pys ''srt'') = pys ''00:00:01,000''"
proof -
  have d: "is_double 1" unfolding is_double_def by code_simp
  have r: "(0::rat) \<le> 1" "(1::rat) \<le> 359999" by simp_all
  have f: "nat \<lfloor>1::rat\<rfloor> = 1" "nat \<lfloor>fmul (1 - of_int \<lfloor>1::rat\<rfloor>) 1000\<rfloor> = 0"
    by code_simp+
  show ?thesis
    unfolding format_timestamp_srt_fields [OF d r] f
    by (simp add: two_digits_def three_digits_def pys_def)
qed

lemma srt_stamp_2_5: "format_timestamp (5 / 2) (pys ''srt'') = pys ''00:00:02,500''"
proof -
  have d: "is_double (5 / 2)" unfolding is_double_def by code_simp
  have r: "(0::rat) \<le> 5 / 2" "(5 / 2 :: rat) \<le> 359999" by simp_all
  have f: "nat \<lfloor>5 / 2 :: rat\<rfloor> = 2" "nat \<lfloor>fmul (5 / 2 - of_int \<lfloor>5 / 2 :: rat\<rfloor>) 1000\<rfloor> = 500"
    by code_simp+
  show ?thesis
    unfolding format_timestamp_srt_fields [OF d r] f
    by (simp add: two_digits_def three_digits_def pys_def)
qed

lemma srt_stamp_4: "format_timestamp 4 (pys ''srt'') = pys ''00:00:04,000''"
proof -
  have d: "is_double 4" unfolding is_double_def by code_simp
  have r: "(0::rat) \<le> 4" "(4::rat) \<le> 359999" by simp_all
  have f: "nat \<lfloor>4::rat\<rfloor> = 4" "nat \<lfloor>fmul (4 - of_int \<lfloor>4::rat\<rfloor>) 1000\<rfloor> = 0"
    by code_simp+
  show ?thesis
    unfolding format_timestamp_srt_fields [OF d r] f
    by (simp add: two_digits_def three_digits_def pys_def)
qed

lemma strip_letters:
  "py_strip (pys ''a'') = pys ''a''" "py_strip (pys ''b'') = pys ''b''" "py_strip (pys ''c'') = pys ''c''"
  by (simp_all add: py_strip_def pys_def is_space_def)

lemma srt_example_out:
  "create_srt srt_example =
     pys ''1\<newline>00:00:00,000 --> 00:00:01,000\<newline>a\<newline>\<newline>2\<newline>00:00:01,000 --> 00:00:02,500\<newline>b\<newline>\<newline>3\<newline>00:00:02,500 --> 00:00:04,000\<newline>c\<newline>\<newline>''"
  unfolding create_srt_def srt_example_def srt_loop.simps Let_def segment.simps
    srt_stamp_0 srt_stamp_1 srt_stamp_2_5 srt_stamp_4 strip_letters
  by (simp add: pys_def digits_lt10)

lemma all_takeWhile: "list_all P (takeWhile P xs)"
  by (induction xs) simp_all

lemma py_strip_decomp:
  "\<exists>pre post. t = pre @ py_strip t @ post \<and> list_all is_space pre \<and> list_all is_space post"
proof -
  define rest where "rest = dropWhile is_space t"
  define pre where "pre = takeWhile is_space t"
  define post where "post = rev (takeWhile is_space (rev rest))"
  have t: "t = pre @ rest" by (simp add: pre_def rest_def)
  define xs where "xs = rev rest"
  have x: "xs = takeWhile is_space xs @ dropWhile is_space xs" by simp
  have e1: "rev xs = rev (dropWhile is_space xs) @ rev (takeWhile is_space xs)"
    using arg_cong [OF x, of rev] by (simp only: rev_append)
  have e2: "rev xs = rest" by (simp add: xs_def)
  have e3: "rev (dropWhile is_space xs) = py_strip t"
    by (simp add: py_strip_def xs_def rest_def)
  have e4: "rev (takeWhile is_space xs) = post"
    by (simp add: post_def xs_def)
  have r: "rest = py_strip t @ post"
    unfolding e2 [symmetric] e3 [symmetric] e4 [symmetric] by (rule e1)
  have a: "list_all is_space pre"
    unfolding pre_def by (rule all_takeWhile)
  have "list_all is_space (takeWhile is_space (rev rest))"
    by (rule all_takeWhile)
  then have b: "list_all is_space post"
    unfolding post_def by (simp add: list_all_iff)
  from t r a b show ?thesis by blast
qed

lemma last_dropWhile_eq: "dropWhile P xs \<noteq> [] \<Longrightarrow> last (dropWhile P xs) = last xs"
  by (induction xs) (auto split: if_splits)

lemma py_strip_ends:
  "py_strip t = [] \<or> (\<not> is_space (hd (py_strip t)) \<and> \<not> is_space (last (py_strip t)))"
proof (cases "py_strip t = []")
  case True
  then show ?thesis by simp
next
  case False
  define rest where "rest = dropWhile is_space t"
  define d where "d = dropWhile is_space (rev rest)"
  have s: "py_strip t = rev d" by (simp add: py_strip_def d_def rest_def)
  from False have d: "d \<noteq> []" by (simp add: s)
  then have l: "\<not> is_space (hd d)" unfolding d_def by (rule hd_dropWhile)
  have "rev rest \<noteq> []" using d unfolding d_def by auto
  then have rest: "rest \<noteq> []" by simp
  then have h: "\<not> is_space (hd rest)" unfolding rest_def by (rule hd_dropWhile)
  have "last d = last (rev rest)"
    using d unfolding d_def by (rule last_dropWhile_eq)
  also have "\<dots> = hd rest" using rest by (simp add: last_rev)
  finally have ld: "last d = hd rest" .
  have "hd (py_strip t) = last d" using d by (simp add: s hd_rev)
  moreover have "last (py_strip t) = hd d" using d by (simp add: s last_rev)
  ultimately show ?thesis using l h ld by simp
qed

lemma strip_padded: "py_strip (pys ''  hello world \<newline>'') = pys ''hello world''"
  by (simp add: py_strip_def pys_def is_space_def)

lemma padded_example_out:
  "create_srt padded_example =
     pys ''1\<newline>00:00:00,000 --> 00:00:01,000\<newline>hello world\<newline>\<newline>''"
  unfolding create_srt_def padded_example_def srt_loop.simps Let_def segment.simps
    srt_stamp_0 srt_stamp_1 strip_padded
  by (simp add: pys_def digits_lt10)


lemma karaoke_loop_fragments:
  "karaoke_loop ws acc last_end = acc @ concat (map2 word_fragment (prev_ends last_end ws) ws)"
proof (induction ws arbitrary: acc last_end)
  case Nil
  then show ?case by simp
next
  case (Cons w ws)
  show ?case
  proof (cases ws)
    case Nil
    then show ?thesis
      by (simp add: Let_def prev_ends_def word_fragment_def gap_tag_def)
  next
    case (Cons v vs)
    have "prev_ends last_end (w # ws) = last_end # prev_ends (w_end w) ws"
      using Cons by (simp add: prev_ends_def)
    then show ?thesis
      by (simp add: Cons.IH Let_def word_fragment_def gap_tag_def)
  qed
qed

lemma ass_loop_lines:
  "ass_loop karaoke style segs f = f @ concat (map (\<lambda>seg. nl_line (dialogue_text karaoke style seg)) segs)"
proof (induction segs arbitrary: f)
  case Nil
  then show ?case by simp
next
  case (Cons seg segs)
  then show ?case
    by (simp add: Let_def dialogue_text_def nl_line_def karaoke_text_def karaoke_loop_fragments pys_def)
qed

lemma white_code: "the (ASS_COLORS (pys ''white'')) = pys ''&HFFFFFF&''"
  by (simp add: ASS_COLORS_def pys_def)

lemma create_ass_lines:
  "create_ass lower segs title karaoke style color =
     ass_header title (ass_color_of lower color)
     @ concat (map (\<lambda>seg. nl_line (dialogue_text karaoke style seg)) segs)"
  by (simp add: create_ass_def ass_loop_lines ass_color_of_def white_code split: option.split)

lemma ass_stamp_0: "format_timestamp 0 (pys ''ass'') = pys ''0:00:00.00''"
proof -
  have d: "is_double 0" by (simp add: is_double_def)
  have r: "(0::rat) \<le> 0" "(0::rat) < 2 ^ 53" by simp_all
  have f: "nat \<lfloor>0::rat\<rfloor> = 0" "nat \<lfloor>fmul (0 - of_int \<lfloor>0::rat\<rfloor>) 100\<rfloor> = 0"
    by code_simp+
  show ?thesis
    unfolding format_timestamp_ass_fields [OF d r(1)] ass_hours [OF r] f
    by (simp add: two_digits_def digits_lt10 pys_def)
qed

lemma ass_stamp_1: "format_timestamp 1 (pys ''ass'') = pys ''0:00:01.00''"
proof -
  have d: "is_double 1" unfolding is_double_def by code_simp
  have r: "(0::rat) \<le> 1" "(1::rat) < 2 ^ 53" by simp_all
  have f: "nat \<lfloor>1::rat\<rfloor> = 1" "nat \<lfloor>fmul (1 - of_int \<lfloor>1::rat\<rfloor>) 100\<rfloor> = 0"
    by code_simp+
  show ?thesis
    unfolding format_timestamp_ass_fields [OF d r(1)] ass_hours [OF r] f
    by (simp add: two_digits_def digits_lt10 pys_def)
qed

lemma karaoke_tags:
  "py_int (fmul (fsub (1 / 2) 0) 100) = 50"
  "py_int (fmul (fsub (fl (3 / 5)) (1 / 2)) 100) = 9"
  "py_int (fmul (fsub 1 (fl (3 / 5))) 100) = 40"
  "fsub 0 0 = 0" "0 < fsub (fl (3 / 5)) (1 / 2)"
  by code_simp+

lemma karaoke_example_text:
  "karaoke_text 0 karaoke_words =
     k_open @ pys ''50}hi '' @ k_open @ pys ''9} '' @ k_open @ pys ''40}there''"
  unfolding karaoke_text_def karaoke_words_def prev_ends_def
  by (simp add: word_fragment_def gap_tag_def karaoke_tags str_int_def digits_lt10 digits_lt100
      py_strip_def is_space_def pys_def k_open_def)

lemma karaoke_example_line:
  "dialogue_text True style karaoke_example =
     pys ''Dialogue: 0,0:00:00.00,0:00:01.00,Karaoke,,0,0,0,,''
     @ k_open @ pys ''50}hi '' @ k_open @ pys ''9} '' @ k_open @ pys ''40}there''"
proof -
  have w: "truthy_words karaoke_example"
    by (simp add: truthy_words_def karaoke_example_def karaoke_words_def)
  have s: "seg_start karaoke_example = 0" "seg_end karaoke_example = 1"
    "the (seg_words karaoke_example) = karaoke_words"
    by (simp_all add: karaoke_example_def)
  show ?thesis
    unfolding dialogue_text_def s ass_stamp_0 ass_stamp_1 karaoke_example_text
    using w by (simp add: pys_def)
qed

lemma dialogue_text_karaoke:
  assumes "seg_words seg = Some ws" "ws \<noteq> []"
  shows "dialogue_text True style seg =
     pys ''Dialogue: 0,'' @ format_timestamp (seg_start seg) (pys ''ass'') @ pys '',''
     @ format_timestamp (seg_end seg) (pys ''ass'') @ pys '',Karaoke,,0,0,0,,''
     @ py_strip (concat (map2 word_fragment (seg_start seg # map w_end (butlast ws)) ws))"
  using assms
  by (simp add: dialogue_text_def truthy_words_def karaoke_text_def prev_ends_def pys_def)

lemma word_fragment_unfold:
  "word_fragment prev_end w =
     (if 0 < fsub (w_start w) prev_end
      then k_open @ str_int (py_int (fmul (fsub (w_start w) prev_end) (float_of_int 100))) @ pys ''} ''
      else [])
     @ k_open @ str_int (py_int (fmul (fsub (w_end w) (w_start w)) (float_of_int 100))) @ pys ''}''
     @ w_word w @ pys '' ''"
  unfolding word_fragment_def gap_tag_def by (rule refl)

text \<open>
  Claim C2, as stated, ends with an example: for the words \<open>(0, 0.5, "hi")\<close> and
  \<open>(0.6, 1.0, "there")\<close> in a segment from 0 to 1.0, the gap tag between the two word tags
  is 10 centiseconds. In binary64 arithmetic \<open>0.6 - 0.5 = 0.09999999999999998\<close>, its
  product with 100 is \<open>9.999999999999998\<close>, and \<open>int\<close> truncates it to 9: the file holds
  \<^verbatim>\<open>{\k50}hi {\k9} {\k40}there\<close>, not the line with \<^verbatim>\<open>{\k10}\<close>.
\<close>

theorem create_ass_karaoke_gap_counterexample:
  "create_ass (\<lambda>s. s) [karaoke_example] [] True (pys ''Default'') (pys ''white'') =
     ass_header [] (pys ''&HFFFFFF&'')
     @ pys ''Dialogue: 0,0:00:00.00,0:00:01.00,Karaoke,,0,0,0,,''
     @ k_open @ pys ''50}hi '' @ k_open @ pys ''9} '' @ k_open @ pys ''40}there'' @ pys ''\<newline>'' \<and>
   create_ass (\<lambda>s. s) [karaoke_example] [] True (pys ''Default'') (pys ''white'') \<noteq>
     ass_header [] (pys ''&HFFFFFF&'')
     @ pys ''Dialogue: 0,0:00:00.00,0:00:01.00,Karaoke,,0,0,0,,''
     @ k_open @ pys ''50}hi '' @ k_open @ pys ''10} '' @ k_open @ pys ''40}there'' @ pys ''\<newline>''"
proof -
  have c: "ass_color_of (\<lambda>s. s) (pys ''white'') = pys ''&HFFFFFF&''"
    by (simp add: ass_color_of_def ASS_COLORS_def pys_def)
  have e: "create_ass (\<lambda>s. s) [karaoke_example] [] True (pys ''Default'') (pys ''white'') =
     ass_header [] (pys ''&HFFFFFF&'')
     @ pys ''Dialogue: 0,0:00:00.00,0:00:01.00,Karaoke,,0,0,0,,''
     @ k_open @ pys ''50}hi '' @ k_open @ pys ''9} '' @ k_open @ pys ''40}there'' @ pys ''\<newline>''"
    unfolding create_ass_lines c
    by (simp add: karaoke_example_line nl_line_def pys_def)
  have n: "pys ''Dialogue: 0,0:00:00.00,0:00:01.00,Karaoke,,0,0,0,,''
     @ k_open @ pys ''50}hi '' @ k_open @ pys ''9} '' @ k_open @ pys ''40}there'' @ pys ''\<newline>'' \<noteq>
     pys ''Dialogue: 0,0:00:00.00,0:00:01.00,Karaoke,,0,0,0,,''
     @ k_open @ pys ''50}hi '' @ k_open @ pys ''10} '' @ k_open @ pys ''40}there'' @ pys ''\<newline>''"
    by (simp add: pys_def k_open_def)
  show ?thesis
    unfolding e using n by simp
qed

text \<open>
  Claim C2, amended: with karaoke enabled, the file is the header followed by one dialogue
  line per segment, and for every segment that carries a non-empty word list the line is
  built word by word: for each word the gap to the end of the previous word (to the
  segment start for the first word) is computed; a karaoke tag of \<open>int(gap * 100)\<close>
  centiseconds followed by a space is emitted only when the gap is strictly positive; then
  a karaoke tag of \<open>int(word_duration * 100)\<close> centiseconds, the word's text and a space;
  the concatenation is stripped. Differences and products are the binary64 ones. For the
  words \<open>(0, 0.5, "hi")\<close>, \<open>(0.6, 1.0, "there")\<close> in a segment from 0 to 1.0 this yields
  word-duration tags of 50 and 40 centiseconds and a gap tag of 9 centiseconds between
  them.
\<close>

theorem create_ass_karaoke:
  "(\<forall>lower segs title style color.
      create_ass lower segs title True style color =
        ass_header title (ass_color_of lower color)
        @ concat (map (\<lambda>seg. nl_line (dialogue_text True style seg)) segs)) \<and>
   (\<forall>seg ws style. seg_words seg = Some ws \<and> ws \<noteq> [] \<longrightarrow>
      dialogue_text True style seg =
        pys ''Dialogue: 0,'' @ format_timestamp (seg_start seg) (pys ''ass'') @ pys '',''
        @ format_timestamp (seg_end seg) (pys ''ass'') @ pys '',Karaoke,,0,0,0,,''
        @ py_strip (concat (map2 word_fragment (seg_start seg # map w_end (butlast ws)) ws))) \<and>
   (\<forall>prev_end w.
      word_fragment prev_end w =
        (if 0 < fsub (w_start w) prev_end
         then k_open @ str_int (py_int (fmul (fsub (w_start w) prev_end) (float_of_int 100))) @ pys ''} ''
         else [])
        @ k_open @ str_int (py_int (fmul (fsub (w_end w) (w_start w)) (float_of_int 100))) @ pys ''}''
        @ w_word w @ pys '' '') \<and>
   (\<forall>style. dialogue_text True style karaoke_example =
      pys ''Dialogue: 0,0:00:00.00,0:00:01.00,Karaoke,,0,0,0,,''
      @ k_open @ pys ''50}hi '' @ k_open @ pys ''9} '' @ k_open @ pys ''40}there'')"
  using create_ass_lines dialogue_text_karaoke word_fragment_unfold karaoke_example_line
  by blast

text \<open>The theorem of claim C2 at the example segment.\<close>

theorem create_ass_karaoke_witness:
  "seg_words karaoke_example = Some karaoke_words \<and> karaoke_words \<noteq> [] \<and>
   dialogue_text True (pys ''Default'') karaoke_example =
     pys ''Dialogue: 0,'' @ format_timestamp (seg_start karaoke_example) (pys ''ass'') @ pys '',''
     @ format_timestamp (seg_end karaoke_example) (pys ''ass'') @ pys '',Karaoke,,0,0,0,,''
     @ py_strip (concat (map2 word_fragment
         (seg_start karaoke_example # map w_end (butlast karaoke_words)) karaoke_words))"
proof -
  have a: "seg_words karaoke_example = Some karaoke_words \<and> karaoke_words \<noteq> []"
    by (simp add: karaoke_example_def karaoke_words_def)
  with create_ass_karaoke show ?thesis by blast
qed

end
